theory Spec2Isabelle
  imports Main "HOL-Library.Word"
begin

unbundle bit_operations_syntax

section \<open>Machine types and errors\<close>

type_synonym u64 = "64 word"
type_synonym byte_t = "8 word"

text \<open>
  \<open>Primesieve_error\<close> is the exception \<open>primesieve_error\<close> with its message,
  \<open>Assertion_failed\<close> a failed \<open>assert\<close>, \<open>Vector_out_of_bounds\<close> an access to an
  element of the vector \<open>primes_\<close> that does not exist, \<open>Sieve_out_of_bounds\<close> an access to the
  sieve array outside its bytes.
\<close>

datatype error =
    Primesieve_error string
  | Assertion_failed
  | Vector_out_of_bounds
  | Sieve_out_of_bounds

section \<open>api.cpp: the sieve size\<close>

text \<open>
  Modelled from the spec: \<open>inBetween\<close> and \<open>floorPow2\<close> are declared in pmath.hpp,
  which is not among the sources. \<open>inBetween min x max\<close> clamps \<open>x\<close> into
  \<open>[min, max]\<close>; \<open>floorPow2 x\<close> rounds \<open>x\<close> down to a power of two (the sieve size is a
  power-of-two number of kilobytes).
\<close>

definition inBetween :: "int \<Rightarrow> int \<Rightarrow> int \<Rightarrow> int" where
  "inBetween lo x hi = (if x < lo then lo else if x > hi then hi else x)"

fun floorPow2_nat :: "nat \<Rightarrow> nat" where
  "floorPow2_nat n = (if n \<le> 1 then n else 2 * floorPow2_nat (n div 2))"

declare floorPow2_nat.simps [simp del]

definition floorPow2 :: "int \<Rightarrow> int" where
  "floorPow2 x = int (floorPow2_nat (nat x))"

text \<open>The two file-scope globals of api.cpp, both \<open>int\<close> and both initially zero.\<close>

record api_globals =
  sieve_size :: int
  num_threads :: int

definition api_init :: api_globals where
  "api_init = \<lparr>sieve_size = 0, num_threads = 0\<rparr>"

text \<open>
  The cache sizes in bytes reported by \<open>cpuInfo\<close> (CpuInfo.hpp is not among the
  sources; the three getters are taken as given values of type \<open>size_t\<close>).
\<close>

record CpuInfo =
  l1CacheSize :: nat
  l2CacheSize :: nat
  l3CacheSize :: nat

definition set_sieve_size :: "int \<Rightarrow> api_globals \<Rightarrow> api_globals" where
  "set_sieve_size kilobytes g =
     (let g1 = g\<lparr>sieve_size := inBetween 1 kilobytes 2048\<rparr>
      in g1\<lparr>sieve_size := floorPow2 (sieve_size g1)\<rparr>)"

definition get_sieve_size :: "api_globals \<Rightarrow> CpuInfo \<Rightarrow> int" where
  "get_sieve_size g cpuInfo =
     (if sieve_size g \<noteq> 0 then sieve_size g
      else
        let l1 = l1CacheSize cpuInfo div 1024;
            l2 = l2CacheSize cpuInfo div 1024;
            l3 = l3CacheSize cpuInfo div 1024
        in if l2 > l1 \<and> l2 > 0 \<and> l3 > 0
           then floorPow2 (inBetween 32 (int l2) 2048)
           else let l1' = (if l1 = 0 then 32 else l1)
                in floorPow2 (inBetween 8 (int l1') 2048))"

section \<open>EratMedium.cpp\<close>

text \<open>
  Modelled from the spec: the class \<open>SievingPrime\<close> is declared in Wheel.hpp, which is
  not among the sources. A record has three fields, the sieving prime divided by 30, the
  multiple index and the wheel index; \<open>set\<close> overwrites the last two. The widths of the
  fields and their packing are not modelled: the three are kept as the \<open>uint64_t\<close> values
  that EratMedium.cpp passes and reads.
\<close>

record SievingPrime =
  getSievingPrime :: u64
  getMultipleIndex :: u64
  getWheelIndex :: u64

definition SievingPrime_new :: "u64 \<Rightarrow> u64 \<Rightarrow> u64 \<Rightarrow> SievingPrime" where
  "SievingPrime_new sievingPrime multipleIndex wheelIndex =
     \<lparr>getSievingPrime = sievingPrime, getMultipleIndex = multipleIndex,
      getWheelIndex = wheelIndex\<rparr>"

definition set_indexes :: "u64 \<Rightarrow> u64 \<Rightarrow> SievingPrime \<Rightarrow> SievingPrime" where
  "set_indexes multipleIndex wheelIndex p =
     p\<lparr>getMultipleIndex := multipleIndex, getWheelIndex := wheelIndex\<rparr>"

text \<open>\<open>NUMBERS_PER_BYTE\<close> (config.hpp): each sieve byte covers 30 consecutive integers.\<close>

definition NUMBERS_PER_BYTE :: u64 where
  "NUMBERS_PER_BYTE = 30"

text \<open>
  The members \<open>stop_\<close>, \<open>maxPrime_\<close> and \<open>primes_\<close> are written \<open>m_stop\<close>,
  \<open>m_maxPrime\<close> and \<open>m_primes\<close> (a name cannot end in an underscore here).
\<close>

record EratMedium =
  m_stop :: u64
  m_maxPrime :: u64
  m_primes :: "SievingPrime list"

text \<open>
  The constructor. The base class \<open>Modulo210Wheel_t\<close> (Wheel.hpp) keeps \<open>stop\<close>;
  \<open>prime_count_approx\<close> and \<open>reserve\<close> only set the capacity of the empty vector.
  \<open>4096u << 10\<close> is \<open>2 ^ 22\<close>, within \<open>unsigned int\<close>.
\<close>

definition EratMedium_new :: "u64 \<Rightarrow> u64 \<Rightarrow> u64 \<Rightarrow> error + EratMedium" where
  "EratMedium_new stop sieveSize maxPrime =
     (if sieveSize > push_bit 10 4096
      then Inl (Primesieve_error ''EratMedium: sieveSize must be <= 4096 kilobytes'')
      else if maxPrime > sieveSize * 5
      then Inl (Primesieve_error ''EratMedium: maxPrime must be <= sieveSize * 5'')
      else Inr \<lparr>m_stop = stop, m_maxPrime = maxPrime, m_primes = []\<rparr>)"

definition storeSievingPrime :: "u64 \<Rightarrow> u64 \<Rightarrow> u64 \<Rightarrow> EratMedium \<Rightarrow> error + EratMedium" where
  "storeSievingPrime prime multipleIndex wheelIndex em =
     (if \<not> prime \<le> m_maxPrime em then Inl Assertion_failed
      else
        let sievingPrime = prime div NUMBERS_PER_BYTE
        in Inr (em\<lparr>m_primes := m_primes em @
                  [SievingPrime_new sievingPrime multipleIndex wheelIndex]\<rparr>))"

section \<open>EratMedium.cpp: crossing off\<close>

text \<open>
  Modelled from the spec: \<open>unsetBit\<close> and the wheel tables are in Wheel.hpp, which is not
  among the sources. An entry of the table holds the bit to unset, the byte increment,
  the correction and the next wheel index. The lookup of the table is a parameter
  \<open>wheel\<close> of every function below.
\<close>

record WheelElement =
  bitMask :: byte_t
  byteInc :: u64
  extraInc :: u64
  nextWheelIndex :: u64

type_synonym wheel = "u64 \<Rightarrow> WheelElement"

text \<open>
  The local variables \<open>sievingPrime\<close>, \<open>multipleIndex\<close> and \<open>wheelIndex\<close> that
  \<open>crossOff\<close> keeps for one record while it works on it.
\<close>

record lane =
  sievingPrime :: u64
  multipleIndex :: u64
  wheelIndex :: u64

text \<open>
  Modelled from the spec: \<open>unsetBit(sieve, sievingPrime, &multipleIndex, &wheelIndex)\<close>
  clears in the byte \<open>sieve[multipleIndex]\<close> the bit named by the table, advances
  \<open>multipleIndex\<close> by \<open>sievingPrime * byteInc + extraInc\<close> and moves \<open>wheelIndex\<close> to
  its successor. The sieve is the array of bytes behind the pointer; a byte outside it is
  an error.
\<close>

definition unsetBit :: "wheel \<Rightarrow> byte_t list \<Rightarrow> lane \<Rightarrow> error + byte_t list \<times> lane" where
  "unsetBit wheel sieve l =
     (if unat (multipleIndex l) < length sieve
      then Inr (sieve[unat (multipleIndex l) :=
                        sieve ! unat (multipleIndex l) AND NOT (bitMask (wheel (wheelIndex l)))],
                l\<lparr>multipleIndex := multipleIndex l
                                     + sievingPrime l * byteInc (wheel (wheelIndex l))
                                     + extraInc (wheel (wheelIndex l)),
                  wheelIndex := nextWheelIndex (wheel (wheelIndex l))\<rparr>)
      else Inl Sieve_out_of_bounds)"

text \<open>
  A loop that does not return is \<open>None\<close>; \<open>Some (Inl e)\<close> is an error and
  \<open>Some (Inr x)\<close> a result.
\<close>

definition bind_res ::
  "(error + 'a) option \<Rightarrow> ('a \<Rightarrow> (error + 'b) option) \<Rightarrow> (error + 'b) option"
where
  "bind_res m f =
     (case m of None \<Rightarrow> None | Some (Inl e) \<Rightarrow> Some (Inl e) | Some (Inr x) \<Rightarrow> f x)"

text \<open>\<open>while (multipleIndex < sieveSize) unsetBit(sieve, sievingPrime, &multipleIndex, &wheelIndex);\<close>\<close>

partial_function (option) scalar_loop ::
  "wheel \<Rightarrow> u64 \<Rightarrow> byte_t list \<Rightarrow> lane \<Rightarrow> (error + byte_t list \<times> lane) option"
where
  "scalar_loop wheel sieveSize sieve l =
     (if multipleIndex l < sieveSize then
        (case unsetBit wheel sieve l of
           Inl e \<Rightarrow> Some (Inl e)
         | Inr (sieve', l') \<Rightarrow> scalar_loop wheel sieveSize sieve' l')
      else Some (Inr (sieve, l)))"

declare scalar_loop.simps [code]

text \<open>
  The loop over three records at once: it runs while the first is inside the segment and
  breaks as soon as the second or the third has left it.
\<close>

partial_function (option) triple_loop ::
  "wheel \<Rightarrow> u64 \<Rightarrow> byte_t list \<Rightarrow> lane \<Rightarrow> lane \<Rightarrow> lane
     \<Rightarrow> (error + byte_t list \<times> lane \<times> lane \<times> lane) option"
where
  "triple_loop wheel sieveSize sieve l0 l1 l2 =
     (if multipleIndex l0 < sieveSize then
        (case unsetBit wheel sieve l0 of
           Inl e \<Rightarrow> Some (Inl e)
         | Inr (sieve0, l0') \<Rightarrow>
             if multipleIndex l1 \<ge> sieveSize then Some (Inr (sieve0, l0', l1, l2))
             else
               (case unsetBit wheel sieve0 l1 of
                  Inl e \<Rightarrow> Some (Inl e)
                | Inr (sieve1, l1') \<Rightarrow>
                    if multipleIndex l2 \<ge> sieveSize then Some (Inr (sieve1, l0', l1', l2))
                    else
                      (case unsetBit wheel sieve1 l2 of
                         Inl e \<Rightarrow> Some (Inl e)
                       | Inr (sieve2, l2') \<Rightarrow>
                           triple_loop wheel sieveSize sieve2 l0' l1' l2')))
      else Some (Inr (sieve, l0, l1, l2)))"

declare triple_loop.simps [code]

text \<open>Reading the three getters of a record into the local variables.\<close>

definition load :: "SievingPrime \<Rightarrow> lane" where
  "load p = \<lparr>sievingPrime = getSievingPrime p, multipleIndex = getMultipleIndex p,
             wheelIndex = getWheelIndex p\<rparr>"

text \<open>\<open>multipleIndex -= sieveSize; primes->set(multipleIndex, wheelIndex);\<close>\<close>

definition store :: "u64 \<Rightarrow> lane \<Rightarrow> SievingPrime \<Rightarrow> SievingPrime" where
  "store sieveSize l p = set_indexes (multipleIndex l - sieveSize) (wheelIndex l) p"

text \<open>The body of the first \<open>for\<close> loop, on the records \<open>primes[0..2]\<close>.\<close>

definition crossOff_triple ::
  "wheel \<Rightarrow> u64 \<Rightarrow> byte_t list \<Rightarrow> SievingPrime \<Rightarrow> SievingPrime \<Rightarrow> SievingPrime
     \<Rightarrow> (error + byte_t list \<times> SievingPrime \<times> SievingPrime \<times> SievingPrime) option"
where
  "crossOff_triple wheel sieveSize sieve p0 p1 p2 =
     bind_res (triple_loop wheel sieveSize sieve (load p0) (load p1) (load p2))
       (\<lambda>(sieve, l0, l1, l2).
     bind_res (scalar_loop wheel sieveSize sieve l0) (\<lambda>(sieve, l0).
     bind_res (scalar_loop wheel sieveSize sieve l1) (\<lambda>(sieve, l1).
     bind_res (scalar_loop wheel sieveSize sieve l2) (\<lambda>(sieve, l2).
       Some (Inr (sieve, store sieveSize l0 p0, store sieveSize l1 p1,
                  store sieveSize l2 p2))))))"

text \<open>The body of the second \<open>for\<close> loop, on one record.\<close>

definition crossOff_single ::
  "wheel \<Rightarrow> u64 \<Rightarrow> byte_t list \<Rightarrow> SievingPrime
     \<Rightarrow> (error + byte_t list \<times> SievingPrime) option"
where
  "crossOff_single wheel sieveSize sieve p =
     bind_res (scalar_loop wheel sieveSize sieve (load p)) (\<lambda>(sieve, l).
       Some (Inr (sieve, store sieveSize l p)))"

text \<open>\<open>for (; primes <= back; primes++)\<close>: the records that remain, one by one.\<close>

fun remaining_loop ::
  "wheel \<Rightarrow> u64 \<Rightarrow> byte_t list \<Rightarrow> SievingPrime list
     \<Rightarrow> (error + byte_t list \<times> SievingPrime list) option"
where
  "remaining_loop wheel sieveSize sieve [] = Some (Inr (sieve, []))"
| "remaining_loop wheel sieveSize sieve (p # ps) =
     bind_res (crossOff_single wheel sieveSize sieve p) (\<lambda>(sieve, p').
     bind_res (remaining_loop wheel sieveSize sieve ps) (\<lambda>(sieve, ps').
       Some (Inr (sieve, p' # ps'))))"

text \<open>
  \<open>for (; primes + 3 <= back; primes += 3)\<close>: \<open>back\<close> points to the last record, so the
  body runs while at least four records remain; the others go to the second loop.
\<close>

fun triples_loop ::
  "wheel \<Rightarrow> u64 \<Rightarrow> byte_t list \<Rightarrow> SievingPrime list
     \<Rightarrow> (error + byte_t list \<times> SievingPrime list) option"
where
  "triples_loop wheel sieveSize sieve (p0 # p1 # p2 # p3 # ps) =
     bind_res (crossOff_triple wheel sieveSize sieve p0 p1 p2) (\<lambda>(sieve, p0', p1', p2').
     bind_res (triples_loop wheel sieveSize sieve (p3 # ps)) (\<lambda>(sieve, ps').
       Some (Inr (sieve, p0' # p1' # p2' # ps'))))"
| "triples_loop wheel sieveSize sieve ps = remaining_loop wheel sieveSize sieve ps"

text \<open>
  \<open>crossOff\<close> takes \<open>&primes_[0]\<close> and \<open>&primes_.back()\<close> first: on an empty vector
  both are accesses to an element that does not exist.
\<close>

definition crossOff ::
  "wheel \<Rightarrow> byte_t list \<Rightarrow> u64 \<Rightarrow> EratMedium \<Rightarrow> (error + byte_t list \<times> EratMedium) option"
where
  "crossOff wheel sieve sieveSize em =
     (if m_primes em = [] then Some (Inl Vector_out_of_bounds)
      else bind_res (triples_loop wheel sieveSize sieve (m_primes em)) (\<lambda>(sieve, ps').
             Some (Inr (sieve, em\<lparr>m_primes := ps'\<rparr>))))"

section \<open>Wheel walks\<close>

text \<open>
  What follows describes the run of \<open>crossOff\<close>: \<open>advance\<close> is the step that
  \<open>unsetBit\<close> makes on the local variables, \<open>inside\<close> says that the first \<open>n\<close>
  positions of a walk lie inside the segment, \<open>stops\<close> that the walk leaves the segment
  after exactly \<open>n\<close> steps, and \<open>walk_mask\<close> collects the bits that the first \<open>n\<close>
  steps unset in byte \<open>k\<close>.
\<close>

definition advance :: "wheel \<Rightarrow> lane \<Rightarrow> lane" where
  "advance wheel l =
     l\<lparr>multipleIndex := multipleIndex l + sievingPrime l * byteInc (wheel (wheelIndex l))
                           + extraInc (wheel (wheelIndex l)),
       wheelIndex := nextWheelIndex (wheel (wheelIndex l))\<rparr>"

fun inside :: "wheel \<Rightarrow> u64 \<Rightarrow> lane \<Rightarrow> nat \<Rightarrow> bool" where
  "inside wheel sieveSize l 0 = True"
| "inside wheel sieveSize l (Suc n) =
     (multipleIndex l < sieveSize \<and> inside wheel sieveSize (advance wheel l) n)"

definition stops :: "wheel \<Rightarrow> u64 \<Rightarrow> lane \<Rightarrow> nat \<Rightarrow> bool" where
  "stops wheel sieveSize l n =
     (inside wheel sieveSize l n \<and> sieveSize \<le> multipleIndex ((advance wheel ^^ n) l))"

fun walk_mask :: "wheel \<Rightarrow> lane \<Rightarrow> nat \<Rightarrow> nat \<Rightarrow> byte_t" where
  "walk_mask wheel l 0 k = 0"
| "walk_mask wheel l (Suc n) k =
     (if unat (multipleIndex l) = k then bitMask (wheel (wheelIndex l)) else 0)
       OR walk_mask wheel (advance wheel l) n k"

definition clear1 :: "wheel \<Rightarrow> byte_t list \<Rightarrow> lane \<Rightarrow> byte_t list" where
  "clear1 wheel sieve l =
     sieve[unat (multipleIndex l) :=
             sieve ! unat (multipleIndex l) AND NOT (bitMask (wheel (wheelIndex l)))]"

definition hit :: "wheel \<Rightarrow> lane \<Rightarrow> nat \<Rightarrow> byte_t" where
  "hit wheel l k = (if unat (multipleIndex l) = k then bitMask (wheel (wheelIndex l)) else 0)"

definition triple_post ::
  "wheel \<Rightarrow> u64 \<Rightarrow> byte_t list \<Rightarrow> lane \<Rightarrow> lane \<Rightarrow> lane
     \<Rightarrow> byte_t list \<Rightarrow> lane \<Rightarrow> lane \<Rightarrow> lane \<Rightarrow> nat \<Rightarrow> nat \<Rightarrow> nat \<Rightarrow> bool"
where
  "triple_post w sz s l0 l1 l2 s' l0' l1' l2' a b c =
     (inside w sz l0 a \<and> inside w sz l1 b \<and> inside w sz l2 c
      \<and> l0' = (advance w ^^ a) l0 \<and> l1' = (advance w ^^ b) l1 \<and> l2' = (advance w ^^ c) l2
      \<and> length s' = length s
      \<and> (\<forall>k<length s. s' ! k = s ! k AND NOT (walk_mask w l0 a k OR walk_mask w l1 b k
                                                 OR walk_mask w l2 c k)))"

definition lane_done :: "wheel \<Rightarrow> u64 \<Rightarrow> SievingPrime \<Rightarrow> nat \<Rightarrow> SievingPrime \<Rightarrow> bool" where
  "lane_done wheel sieveSize p n q =
     (stops wheel sieveSize (load p) n
      \<and> q = store sieveSize ((advance wheel ^^ n) (load p)) p)"

fun lanes_done :: "wheel \<Rightarrow> u64 \<Rightarrow> SievingPrime list \<Rightarrow> nat list \<Rightarrow> SievingPrime list \<Rightarrow> bool" where
  "lanes_done wheel sieveSize [] [] [] = True"
| "lanes_done wheel sieveSize (p # ps) (n # ns) (q # qs) =
     (lane_done wheel sieveSize p n q \<and> lanes_done wheel sieveSize ps ns qs)"
| "lanes_done wheel sieveSize _ _ _ = False"

fun walks_mask :: "wheel \<Rightarrow> SievingPrime list \<Rightarrow> nat list \<Rightarrow> nat \<Rightarrow> byte_t" where
  "walks_mask wheel (p # ps) (n # ns) k = walk_mask wheel (load p) n k OR walks_mask wheel ps ns k"
| "walks_mask wheel _ _ k = 0"

definition crossed ::
  "wheel \<Rightarrow> u64 \<Rightarrow> byte_t list \<Rightarrow> SievingPrime list \<Rightarrow> byte_t list \<Rightarrow> SievingPrime list
     \<Rightarrow> nat list \<Rightarrow> bool"
where
  "crossed wheel sieveSize sieve ps sieve' qs ns =
     (lanes_done wheel sieveSize ps ns qs \<and> length sieve' = length sieve
      \<and> (\<forall>k<length sieve. sieve' ! k = sieve ! k AND NOT (walks_mask wheel ps ns k)))"

section \<open>A wheel modulo 210\<close>

text \<open>
  Modelled from the spec: the table of the modulo 210 wheel is in Wheel.hpp, which is not
  among the sources. Bit \<open>b\<close> of a sieve byte stands for the residue \<open>residues ! b\<close>
  modulo 30. The wheel has 48 spokes, the numbers below 210 coprime to 210
  (\<open>wheel210_factors\<close>, closed by 211 for the wrap-around). The wheel index
  \<open>48 * i + j\<close> says that the sieving prime has the residue \<open>residues ! i\<close> modulo 30 and
  that the multiple to cross off next is the prime times a number with residue
  \<open>wheel210_factors ! j\<close> modulo 210. The entry at that index unsets the bit of the
  multiple, moves to the multiple with the next such factor and to the next spoke.
\<close>

definition residues :: "nat list" where
  "residues = [1, 7, 11, 13, 17, 19, 23, 29]"

definition wheel210_factors :: "nat list" where
  "wheel210_factors =
     [1, 11, 13, 17, 19, 23, 29, 31, 37, 41, 43, 47, 53, 59, 61, 67, 71, 73, 79, 83, 89, 97,
      101, 103, 107, 109, 113, 121, 127, 131, 137, 139, 143, 149, 151, 157, 163, 167, 169,
      173, 179, 181, 187, 191, 193, 197, 199, 209, 211]"

fun index_of :: "nat \<Rightarrow> nat list \<Rightarrow> nat" where
  "index_of x [] = 0"
| "index_of x (y # ys) = (if x = y then 0 else Suc (index_of x ys))"

definition wheel210 :: wheel where
  "wheel210 wi =
     (let i = unat wi;
          r = residues ! (i div 48 mod 8);
          f = wheel210_factors ! (i mod 48);
          f' = wheel210_factors ! Suc (i mod 48)
      in \<lparr>bitMask = push_bit (index_of (r * f mod 30) residues) 1,
          byteInc = of_nat (f' - f),
          extraInc = of_nat (r * f' div 30 - r * f div 30),
          nextWheelIndex = of_nat (48 * (i div 48) + Suc (i mod 48) mod 48)\<rparr>)"

text \<open>
  An engine for a sieve of 16 bytes (the numbers below 480) that holds the primes 11, 13,
  17, 19 and 23, each at its square.
\<close>

definition em_small :: EratMedium where
  "em_small =
     \<lparr>m_stop = 479, m_maxPrime = 23,
      m_primes =
        [\<lparr>getSievingPrime = 0, getMultipleIndex = 4, getWheelIndex = 97\<rparr>,
         \<lparr>getSievingPrime = 0, getMultipleIndex = 5, getWheelIndex = 146\<rparr>,
         \<lparr>getSievingPrime = 0, getMultipleIndex = 9, getWheelIndex = 195\<rparr>,
         \<lparr>getSievingPrime = 0, getMultipleIndex = 12, getWheelIndex = 244\<rparr>,
         \<lparr>getSievingPrime = 0, getMultipleIndex = 17, getWheelIndex = 293\<rparr>]\<rparr>"

text \<open>The same engine and the sieve after one call of \<open>crossOff\<close> on a sieve of ones.\<close>

definition sieve_small' :: "byte_t list" where
  "sieve_small' = [255, 255, 255, 255, 190, 223, 125, 251, 245, 95, 159, 251, 238, 230, 239, 190]"

definition em_small' :: EratMedium where
  "em_small' =
     \<lparr>m_stop = 479, m_maxPrime = 23,
      m_primes =
        [\<lparr>getSievingPrime = 0, getMultipleIndex = 1, getWheelIndex = 107\<rparr>,
         \<lparr>getSievingPrime = 0, getMultipleIndex = 0, getWheelIndex = 152\<rparr>,
         \<lparr>getSievingPrime = 0, getMultipleIndex = 0, getWheelIndex = 198\<rparr>,
         \<lparr>getSievingPrime = 0, getMultipleIndex = 2, getWheelIndex = 246\<rparr>,
         \<lparr>getSievingPrime = 0, getMultipleIndex = 1, getWheelIndex = 293\<rparr>]\<rparr>"

text \<open>
  An engine for a sieve of 56 bytes (the numbers below 1680) that holds the prime 31 at its
  square 961 = 30 * 32 + 1, and the sieve and the engine after one call of \<open>crossOff\<close>
  on a sieve of ones.
\<close>

definition em31 :: EratMedium where
  "em31 = \<lparr>m_stop = 1679, m_maxPrime = 40,
           m_primes = [\<lparr>getSievingPrime = 1, getMultipleIndex = 32, getWheelIndex = 7\<rparr>]\<rparr>"

definition sieve31' :: "byte_t list" where
  "sieve31' =
     [255, 255, 255, 255, 255, 255, 255, 255, 255, 255, 255, 255, 255, 255, 255, 255,
      255, 255, 255, 255, 255, 255, 255, 255, 255, 255, 255, 255, 255, 255, 255, 255,
      254, 255, 255, 255, 255, 255, 253, 255, 255, 255, 251, 255, 247, 255, 255, 255,
      239, 255, 255, 255, 255, 255, 191, 255]"

definition em31' :: EratMedium where
  "em31' = \<lparr>m_stop = 1679, m_maxPrime = 40,
            m_primes = [\<lparr>getSievingPrime = 1, getMultipleIndex = 4, getWheelIndex = 13\<rparr>]\<rparr>"

section \<open>Wheels and multiples\<close>

text \<open>
  Modelled from the spec: what a wheel table modulo \<open>M\<close> has to do (the tables are in
  Wheel.hpp, not among the sources). \<open>dec\<close> reads a wheel index as the residue \<open>r\<close> of the
  sieving prime modulo 30 and the residue \<open>f\<close> modulo \<open>M\<close> of the factor of the multiple
  to cross off next. The entry at that index unsets the bit of the multiple; its byte
  increment \<open>g\<close> is the distance from \<open>f\<close> to the next number coprime to \<open>M\<close>, its
  correction is what the residue \<open>r\<close> adds to the byte offset on the way from the factor
  \<open>f\<close> to the factor \<open>f + g\<close>, and its successor is the index of \<open>r\<close> and \<open>f + g\<close>.
\<close>

definition wheel_sound :: "nat \<Rightarrow> (u64 \<Rightarrow> (nat \<times> nat) option) \<Rightarrow> wheel \<Rightarrow> bool" where
  "wheel_sound M dec wheel =
     (\<forall>wi r f. dec wi = Some (r, f) \<longrightarrow>
        r < 30 \<and> coprime r 30 \<and> f < M \<and> coprime f M
        \<and> 0 < unat (byteInc (wheel wi))
        \<and> coprime (f + unat (byteInc (wheel wi))) M
        \<and> (\<forall>j. 0 < j \<and> j < unat (byteInc (wheel wi)) \<longrightarrow> \<not> coprime (f + j) M)
        \<and> bitMask (wheel wi) = push_bit (index_of (r * f mod 30) residues) 1
        \<and> unat (extraInc (wheel wi))
            = r * (f + unat (byteInc (wheel wi))) div 30 - r * f div 30
        \<and> dec (nextWheelIndex (wheel wi)) = Some (r, (f + unat (byteInc (wheel wi))) mod M))"

text \<open>The reading of the indexes of \<open>wheel210\<close>.\<close>

definition dec210 :: "u64 \<Rightarrow> (nat \<times> nat) option" where
  "dec210 wi =
     (if unat wi < 384
      then Some (residues ! (unat wi div 48), wheel210_factors ! (unat wi mod 48))
      else None)"

text \<open>
  The local variables \<open>l\<close> of a record point at the multiple \<open>p * c\<close> in the segment whose
  first byte is byte \<open>L\<close> of the whole sieve (byte \<open>k\<close> of the whole sieve covers the numbers
  from \<open>30 * k\<close> to \<open>30 * k + 29\<close>): the sieving prime is \<open>p div 30\<close>, the multiple index
  is the byte offset of \<open>p * c\<close> from the start of the segment, and the wheel index stands
  for the residues of \<open>p\<close> and \<open>c\<close>.
\<close>

definition points_at ::
  "nat \<Rightarrow> (u64 \<Rightarrow> (nat \<times> nat) option) \<Rightarrow> nat \<Rightarrow> lane \<Rightarrow> nat \<Rightarrow> nat \<Rightarrow> bool"
where
  "points_at M dec L l p c =
     (unat (sievingPrime l) = p div 30
      \<and> L + unat (multipleIndex l) = p * c div 30
      \<and> dec (wheelIndex l) = Some (p mod 30, c mod M))"

text \<open>
  \<open>c'\<close> is the first factor coprime to \<open>M\<close>, from \<open>c\<close> on, whose multiple \<open>p * c'\<close> lies
  in byte \<open>L'\<close> of the whole sieve or beyond.
\<close>

definition next_multiple :: "nat \<Rightarrow> nat \<Rightarrow> nat \<Rightarrow> nat \<Rightarrow> nat \<Rightarrow> bool" where
  "next_multiple M L' p c c' =
     (c \<le> c' \<and> coprime c' M \<and> L' \<le> p * c' div 30
      \<and> (\<forall>c''. c \<le> c'' \<and> c'' < c' \<and> coprime c'' M \<longrightarrow> p * c'' div 30 < L'))"

text \<open>
  The entry invariant of a record \<open>r\<close> for the pair \<open>pc = (p, c)\<close>: it points at the multiple
  \<open>p * c\<close>, and the walk over one segment cannot wrap around in 64 bits.
\<close>

definition entry_inv ::
  "nat \<Rightarrow> (u64 \<Rightarrow> (nat \<times> nat) option) \<Rightarrow> nat \<Rightarrow> u64 \<Rightarrow> SievingPrime \<Rightarrow> nat \<times> nat \<Rightarrow> bool"
where
  "entry_inv M dec L sieveSize r pc =
     (points_at M dec L (load r) (fst pc) (snd pc) \<and> 0 < fst pc
      \<and> unat sieveSize + (fst pc + 2) * M < 2 ^ 64)"

text \<open>
  The number \<open>x\<close> is one of the multiples \<open>p * c'\<close> with \<open>c'\<close> coprime to \<open>M\<close> and at
  least \<open>c\<close>, for one of the pairs \<open>(p, c)\<close>.
\<close>

definition wheel_multiple :: "nat \<Rightarrow> (nat \<times> nat) list \<Rightarrow> nat \<Rightarrow> bool" where
  "wheel_multiple M pcs x =
     (\<exists>pc\<in>set pcs. \<exists>c'\<ge>snd pc. coprime c' M \<and> fst pc * c' = x)"

definition is_prime :: "nat \<Rightarrow> bool" where
  "is_prime n = (1 < n \<and> (\<forall>d\<in>{2..<n}. \<not> d dvd n))"

section \<open>The sieving driver behind the API\<close>

text \<open>
  Modelled from the spec: the classes \<open>PrimeSieve\<close> and \<open>ParallelPrimeSieve\<close> are only
  declared among the sources (PrimeSieve.h); their member functions \<open>generatePrimes\<close>
  and \<open>countPrimes\<close> are not. The driver below follows sections 4.6, 5, 6 and 7 of the
  spec. Numbers are natural numbers; a sieve size is a
  number of bytes.

  Spec 4.6, step 2: the primes 2, 3 and 5 have no bit in the sieve and are handled before
  the segments.
\<close>

definition small_primes :: "nat list" where
  "small_primes = [2, 3, 5]"

text \<open>
  Modelled from the spec (invariant I4 and 4.6, steps 2, 3 and 5): in a finished segment
  that covers the numbers from \<open>low\<close> up to, not including, \<open>high\<close>, the bits below
  \<open>start\<close> and above \<open>stop\<close> are cleared and the bits left set are those of the primes;
  only numbers coprime to 30 have a bit. The scan goes through them in ascending order.
\<close>

definition scan_segment :: "nat \<Rightarrow> nat \<Rightarrow> nat \<Rightarrow> nat \<Rightarrow> nat list" where
  "scan_segment start stop low high =
     filter (\<lambda>x. start \<le> x \<and> x \<le> stop \<and> coprime x 30 \<and> is_prime x) [low..<high]"

text \<open>
  Modelled from the spec (section 3): segment \<open>i\<close> covers the numbers from
  \<open>start + 30 * i * sieveSize\<close> up to, not including, \<open>start + 30 * (i + 1) * sieveSize\<close>;
  the segments are taken in order until \<open>stop\<close> is covered.
\<close>

definition segment_low :: "nat \<Rightarrow> nat \<Rightarrow> nat \<Rightarrow> nat" where
  "segment_low sieveSize start i = start + 30 * i * sieveSize"

definition segment_count :: "nat \<Rightarrow> nat \<Rightarrow> nat \<Rightarrow> nat" where
  "segment_count sieveSize start stop = (stop - start) div (30 * sieveSize) + 1"

text \<open>The primes that one worker finds in \<open>[start, stop]\<close>, in the order in which it finds them.\<close>

definition worker_primes :: "nat \<Rightarrow> nat \<Rightarrow> nat \<Rightarrow> nat list" where
  "worker_primes sieveSize start stop =
     filter (\<lambda>p. start \<le> p \<and> p \<le> stop) small_primes
     @ concat (map (\<lambda>i. scan_segment start stop (segment_low sieveSize start i)
                                               (segment_low sieveSize start (Suc i)))
                   [0..<segment_count sieveSize start stop])"

text \<open>
  Modelled from the spec (sections 6 and 7): \<open>generatePrimes\<close> calls the callback once for
  every prime found, in the order of the scan; \<open>start > stop\<close> is a configuration error,
  reported before any segment is sieved. The callback is a function on a state of the
  caller.
\<close>

definition generatePrimes ::
  "nat \<Rightarrow> nat \<Rightarrow> nat \<Rightarrow> (nat \<Rightarrow> 's \<Rightarrow> 's) \<Rightarrow> 's \<Rightarrow> error + 's"
where
  "generatePrimes sieveSize start stop callback st =
     (if start > stop then Inl (Primesieve_error ''start > stop'')
      else Inr (fold callback (worker_primes sieveSize start stop) st))"

text \<open>
  Modelled from the spec (sections 5, 6 and 7): \<open>ParallelPrimeSieve\<close> splits
  \<open>[start, stop]\<close> into disjoint intervals, one for each thread, whose lengths are
  multiples of 30; each worker sieves its interval on its own and the counts are added
  when the workers have joined. The interface asks for \<open>start \<le> stop\<close>, and
  \<open>start > stop\<close> is a configuration error, reported before any segment is sieved.
\<close>

definition thread_distance :: "nat \<Rightarrow> nat \<Rightarrow> nat \<Rightarrow> nat" where
  "thread_distance threads start stop = (((stop - start) div threads + 1 + 29) div 30) * 30"

definition thread_interval :: "nat \<Rightarrow> nat \<Rightarrow> nat \<Rightarrow> nat \<Rightarrow> nat \<times> nat" where
  "thread_interval threads start stop t =
     (start + t * thread_distance threads start stop,
      min stop (start + (t + 1) * thread_distance threads start stop - 1))"

definition countPrimes :: "nat \<Rightarrow> nat \<Rightarrow> nat \<Rightarrow> nat \<Rightarrow> error + nat" where
  "countPrimes sieveSize threads start stop =
     (if start > stop then Inl (Primesieve_error ''start > stop'')
      else Inr (sum_list (map (\<lambda>t. length (worker_primes sieveSize
                                        (fst (thread_interval threads start stop t))
                                        (snd (thread_interval threads start stop t))))
                              [0..<threads])))"

section \<open>api.cpp: counting\<close>

text \<open>
  \<open>ParallelPrimeSieve::getMaxThreads()\<close> is the number of threads of the machine, the
  parameter \<open>maxThreads\<close>.
\<close>

definition get_num_threads :: "api_globals \<Rightarrow> int \<Rightarrow> int" where
  "get_num_threads g maxThreads = (if num_threads g \<noteq> 0 then num_threads g else maxThreads)"

definition set_num_threads :: "int \<Rightarrow> int \<Rightarrow> api_globals \<Rightarrow> api_globals" where
  "set_num_threads threads maxThreads g = g\<lparr>num_threads := inBetween 1 threads maxThreads\<rparr>"

text \<open>
  \<open>count_primes\<close> builds a \<open>ParallelPrimeSieve\<close>, gives it the sieve size (in kilobytes)
  and the number of threads, and calls it.
\<close>

definition count_primes :: "api_globals \<Rightarrow> CpuInfo \<Rightarrow> int \<Rightarrow> u64 \<Rightarrow> u64 \<Rightarrow> error + nat" where
  "count_primes g cpuInfo maxThreads start stop =
     countPrimes (1024 * nat (get_sieve_size g cpuInfo)) (nat (get_num_threads g maxThreads))
       (unat start) (unat stop)"

text \<open>A machine for the examples: cache sizes of 32 KiB, 256 KiB and 8 MiB.\<close>

definition cpu_example :: CpuInfo where
  "cpu_example = \<lparr>l1CacheSize = 32768, l2CacheSize = 262144, l3CacheSize = 8388608\<rparr>"

section \<open>The sieve size set through the API\<close>

lemma floorPow2_nat_pos: "0 < n \<Longrightarrow> 0 < floorPow2_nat n"
  by (induction n rule: floorPow2_nat.induct) (subst floorPow2_nat.simps, auto)

lemma floorPow2_nat_le: "floorPow2_nat n \<le> n"
  by (induction n rule: floorPow2_nat.induct) (subst floorPow2_nat.simps, auto)

lemma floorPow2_nat_gt: "0 < n \<Longrightarrow> n < 2 * floorPow2_nat n"
  by (induction n rule: floorPow2_nat.induct) (subst floorPow2_nat.simps, auto)

lemma floorPow2_nat_pow: "0 < n \<Longrightarrow> \<exists>j. floorPow2_nat n = 2 ^ j"
proof (induction n rule: floorPow2_nat.induct)
  case (1 n)
  show ?case
  proof (cases "n \<le> 1")
    case True
    with "1.prems" have "n = 1" by simp
    then have "floorPow2_nat n = 2 ^ 0" by (simp add: floorPow2_nat.simps)
    then show ?thesis by blast
  next
    case False
    then have "0 < n div 2" by simp
    with "1.IH" False obtain j where "floorPow2_nat (n div 2) = 2 ^ j" by blast
    with False have "floorPow2_nat n = 2 ^ Suc j"
      by (subst floorPow2_nat.simps) simp
    then show ?thesis by blast
  qed
qed

lemma not_3_dvd_pow2: "\<not> (3::int) dvd 2 ^ n"
proof -
  have "(2::int) ^ n mod 3 = 1 \<or> (2::int) ^ n mod 3 = 2"
  proof (induction n)
    case 0
    show ?case by simp
  next
    case (Suc n)
    have "(2::int) ^ Suc n mod 3 = (2 * (2 ^ n mod 3)) mod 3"
      by (simp add: mod_mult_right_eq)
    with Suc show ?case by auto
  qed
  then show ?thesis by (auto simp: dvd_eq_mod_eq_0)
qed

lemma floorPow2_inBetween:
  assumes "1 \<le> lo" "lo \<le> hi"
  shows "1 \<le> floorPow2 (inBetween lo x hi)"
    and "floorPow2 (inBetween lo x hi) \<le> hi"
    and "\<exists>j. floorPow2 (inBetween lo x hi) = 2 ^ j"
proof -
  let ?c = "inBetween lo x hi"
  have c: "1 \<le> ?c" "?c \<le> hi" using assms by (auto simp: inBetween_def)
  then have pos: "0 < nat ?c" by simp
  from floorPow2_nat_pos [OF pos] show "1 \<le> floorPow2 ?c"
    by (simp add: floorPow2_def)
  from floorPow2_nat_le [of "nat ?c"] c show "floorPow2 ?c \<le> hi"
    by (simp add: floorPow2_def)
  from floorPow2_nat_pow [OF pos] obtain j where "floorPow2_nat (nat ?c) = 2 ^ j" by blast
  then have "floorPow2 ?c = 2 ^ j" by (simp add: floorPow2_def)
  then show "\<exists>j. floorPow2 ?c = 2 ^ j" by blast
qed

lemma sieve_size_set: "sieve_size (set_sieve_size k g) = floorPow2 (inBetween 1 k 2048)"
  by (simp add: set_sieve_size_def Let_def)

lemma get_after_set:
  "get_sieve_size (set_sieve_size k g) cpu = floorPow2 (inBetween 1 k 2048)"
  using floorPow2_inBetween(1) [of 1 2048 k]
  by (simp add: get_sieve_size_def sieve_size_set)

text \<open>
  C9. For every \<open>int\<close> argument \<open>k\<close>, after \<open>set_sieve_size(k)\<close> the value returned by
  \<open>get_sieve_size()\<close> is \<open>floorPow2(inBetween(1, k, 2048))\<close>, whatever cache sizes the
  CPU reports: a power of two between 1 and 2048 (kilobytes), and the largest one that
  does not exceed \<open>k\<close> clamped into \<open>[1, 2048]\<close>.
\<close>

theorem get_sieve_size_after_set:
  "get_sieve_size (set_sieve_size k g) cpu = floorPow2 (inBetween 1 k 2048)
   \<and> 1 \<le> get_sieve_size (set_sieve_size k g) cpu
   \<and> get_sieve_size (set_sieve_size k g) cpu \<le> 2048
   \<and> (\<exists>j. get_sieve_size (set_sieve_size k g) cpu = 2 ^ j)
   \<and> get_sieve_size (set_sieve_size k g) cpu \<le> inBetween 1 k 2048
   \<and> inBetween 1 k 2048 < 2 * get_sieve_size (set_sieve_size k g) cpu"
proof -
  have c: "1 \<le> inBetween 1 k 2048" by (simp add: inBetween_def)
  then have "0 < nat (inBetween 1 k 2048)" by simp
  from floorPow2_nat_gt [OF this] floorPow2_nat_le [of "nat (inBetween 1 k 2048)"] c
  have "floorPow2 (inBetween 1 k 2048) \<le> inBetween 1 k 2048"
    "inBetween 1 k 2048 < 2 * floorPow2 (inBetween 1 k 2048)"
    by (simp_all add: floorPow2_def)
  with floorPow2_inBetween [of 1 2048 k] show ?thesis by (simp add: get_after_set)
qed

text \<open>
  C8, as the claim states it, fails: the sieve size that \<open>set_sieve_size(32)\<close> stores and
  \<open>get_sieve_size()\<close> returns is 32 kilobytes, and 32768 bytes are not a multiple of 240.
\<close>

theorem sieve_size_multiple_of_240_counterexample:
  "\<not> 240 dvd 1024 * get_sieve_size (set_sieve_size 32 api_init)
                    \<lparr>l1CacheSize = 32768, l2CacheSize = 262144, l3CacheSize = 8388608\<rparr>"
proof -
  have "floorPow2_nat 32 = 32" by code_simp
  then show ?thesis
    by (simp add: get_after_set floorPow2_def inBetween_def)
qed

text \<open>
  C8, amended. For every argument \<open>k\<close>, the sieve size stored by \<open>set_sieve_size(k)\<close> and
  returned by \<open>get_sieve_size()\<close>, in bytes, lies between 1024 and 4096 * 1024 (it is at most
  2048 * 1024) and is never a multiple of 240: it is a power of two.
\<close>

theorem sieve_size_bytes_bounds:
  "1024 \<le> 1024 * get_sieve_size (set_sieve_size k g) cpu
   \<and> 1024 * get_sieve_size (set_sieve_size k g) cpu \<le> 2048 * 1024
   \<and> 1024 * get_sieve_size (set_sieve_size k g) cpu \<le> 4096 * 1024
   \<and> (\<exists>j. 1024 * get_sieve_size (set_sieve_size k g) cpu = 2 ^ j)
   \<and> \<not> 240 dvd 1024 * get_sieve_size (set_sieve_size k g) cpu"
proof -
  let ?v = "get_sieve_size (set_sieve_size k g) cpu"
  have v: "?v = floorPow2 (inBetween 1 k 2048)" by (rule get_after_set)
  from floorPow2_inBetween [of 1 2048 k] v
  have b: "1 \<le> ?v" "?v \<le> 2048" and "\<exists>j. ?v = 2 ^ j" by simp_all
  then obtain j where j: "?v = 2 ^ j" by blast
  have p: "1024 * ?v = 2 ^ (10 + j)" by (simp add: j power_add)
  have "\<not> 240 dvd 1024 * ?v"
  proof
    assume "240 dvd 1024 * ?v"
    moreover have "(3::int) dvd 240" by simp
    ultimately have "3 dvd 1024 * ?v" by (rule dvd_trans [rotated])
    with p not_3_dvd_pow2 [of "10 + j"] show False by simp
  qed
  moreover from p have "\<exists>j. 1024 * ?v = 2 ^ j" by blast
  ultimately show ?thesis using b by simp
qed

section \<open>Construction of EratMedium\<close>

lemma sieveSize_times_5:
  fixes sieveSize :: u64
  assumes "\<not> sieveSize > push_bit 10 4096"
  shows "unat (sieveSize * 5) = unat sieveSize * 5"
proof -
  from assms have "sieveSize \<le> 4194304" by (simp add: not_less)
  then have "unat sieveSize \<le> 4194304" by (simp add: word_le_nat_alt)
  then show ?thesis by (simp add: unat_word_ariths)
qed

text \<open>
  C3. The constructor throws \<open>primesieve_error\<close> if and only if \<open>sieveSize\<close> exceeds
  4096 * 1024 or \<open>maxPrime\<close> exceeds five times \<open>sieveSize\<close> (as numbers, without
  wrap-around); otherwise it returns the engine with no sieving prime stored. It takes no
  sieve array: a rejection happens before any segment is touched.
\<close>

theorem EratMedium_new_rejects_iff:
  "(\<exists>msg. EratMedium_new stop sieveSize maxPrime = Inl (Primesieve_error msg))
     = (4096 * 1024 < unat sieveSize \<or> unat sieveSize * 5 < unat maxPrime)
   \<and> (\<not> (4096 * 1024 < unat sieveSize \<or> unat sieveSize * 5 < unat maxPrime) \<longrightarrow>
        EratMedium_new stop sieveSize maxPrime
          = Inr \<lparr>m_stop = stop, m_maxPrime = maxPrime, m_primes = []\<rparr>)"
proof (cases "sieveSize > push_bit 10 4096")
  case True
  then have "4096 * 1024 < unat sieveSize" by (simp add: word_less_nat_alt)
  with True show ?thesis by (simp add: EratMedium_new_def)
next
  case False
  then have le: "\<not> 4096 * 1024 < unat sieveSize" by (simp add: word_less_nat_alt)
  have "(maxPrime > sieveSize * 5) = (unat sieveSize * 5 < unat maxPrime)"
    by (simp add: word_less_nat_alt sieveSize_times_5 [OF False])
  with False le show ?thesis by (simp add: EratMedium_new_def)
qed

theorem EratMedium_new_rejects_iff_witness:
  "(\<exists>msg. EratMedium_new 1000000 32768 163840 = Inl (Primesieve_error msg))
     = (4096 * 1024 < unat (32768 :: u64) \<or> unat (32768 :: u64) * 5 < unat (163840 :: u64))
   \<and> EratMedium_new 1000000 32768 163840
       = Inr \<lparr>m_stop = 1000000, m_maxPrime = 163840, m_primes = []\<rparr>"
  using EratMedium_new_rejects_iff [of 1000000 32768 163840] by simp

section \<open>Storing a sieving prime\<close>

text \<open>
  C5. For every call \<open>storeSievingPrime(prime, multipleIndex, wheelIndex)\<close> with
  \<open>prime \<le> maxPrime_\<close>, one record is appended to \<open>primes_\<close>; it holds \<open>prime / 30\<close>
  (integer division) and the given multiple index and wheel index unchanged.
\<close>

theorem storeSievingPrime_appends:
  assumes "prime \<le> m_maxPrime em"
  shows "\<exists>r. storeSievingPrime prime mi wi em
              = Inr (em\<lparr>m_primes := m_primes em @ [r]\<rparr>)
           \<and> unat (getSievingPrime r) = unat prime div 30
           \<and> getMultipleIndex r = mi
           \<and> getWheelIndex r = wi"
proof -
  let ?r = "SievingPrime_new (prime div NUMBERS_PER_BYTE) mi wi"
  have "storeSievingPrime prime mi wi em
          = Inr (em\<lparr>m_primes := m_primes em @ [?r]\<rparr>)"
    using assms by (simp add: storeSievingPrime_def)
  moreover have "unat (getSievingPrime ?r) = unat prime div 30"
    by (simp add: SievingPrime_new_def NUMBERS_PER_BYTE_def unat_div)
  moreover have "getMultipleIndex ?r = mi" "getWheelIndex ?r = wi"
    by (simp_all add: SievingPrime_new_def)
  ultimately show ?thesis by blast
qed

theorem storeSievingPrime_appends_witness:
  "(101 :: u64) \<le> m_maxPrime \<lparr>m_stop = 1000000, m_maxPrime = 163840, m_primes = []\<rparr>
   \<and> (\<exists>r. storeSievingPrime 101 340 7 \<lparr>m_stop = 1000000, m_maxPrime = 163840, m_primes = []\<rparr>
              = Inr \<lparr>m_stop = 1000000, m_maxPrime = 163840, m_primes = [r]\<rparr>
           \<and> unat (getSievingPrime r) = 3
           \<and> getMultipleIndex r = 340
           \<and> getWheelIndex r = 7)"
  using storeSievingPrime_appends
    [of 101 "\<lparr>m_stop = 1000000, m_maxPrime = 163840, m_primes = []\<rparr>" 340 7]
  by simp

section \<open>The loops of crossOff\<close>

lemma unsetBit_Inr:
  "unsetBit w s l = Inr (s', l') \<longleftrightarrow>
     unat (multipleIndex l) < length s \<and> s' = clear1 w s l \<and> l' = advance w l"
  by (auto simp: unsetBit_def advance_def clear1_def)

lemma unsetBit_Inl:
  "unsetBit w s l = Inl e \<longleftrightarrow> \<not> unat (multipleIndex l) < length s \<and> e = Sieve_out_of_bounds"
  by (auto simp: unsetBit_def)

lemma length_clear1 [simp]: "length (clear1 w s l) = length s"
  by (simp add: clear1_def)

lemma and_not_or: "((x :: byte_t) AND NOT a) AND NOT b = x AND NOT (a OR b)"
  by (rule bit_eqI) (auto simp: bit_simps)

lemma nth_clear1:
  "k < length s \<Longrightarrow>
   clear1 w s l ! k
     = s ! k AND NOT (if unat (multipleIndex l) = k then bitMask (w (wheelIndex l)) else 0)"
  by (simp add: clear1_def nth_list_update)

lemma funpow_Suc_lane: "(advance w ^^ Suc n) l = (advance w ^^ n) (advance w l)"
  by (simp add: funpow_swap1)

lemma scalar_loop_Inr:
  assumes "scalar_loop w sz s l = Some y"
  shows "\<forall>s' l'. y = Inr (s', l') \<longrightarrow>
           (\<exists>n. stops w sz l n \<and> l' = (advance w ^^ n) l \<and> length s' = length s
                \<and> (\<forall>k<length s. s' ! k = s ! k AND NOT (walk_mask w l n k)))"
  using assms
proof (induction rule: scalar_loop.raw_induct [rotated 1, consumes 1, case_names step])
  case (step f w sz s l y)
  show ?case
  proof (cases "multipleIndex l < sz")
    case False
    with step(2) have y: "y = Inr (s, l)" by simp
    have "stops w sz l 0" using False by (simp add: stops_def not_less)
    then show ?thesis using y by (intro allI impI exI [of _ 0]) simp
  next
    case True
    show ?thesis
    proof (intro allI impI)
      fix s' l' assume y: "y = Inr (s', l')"
      from step(2) True y obtain s1 l1 where u: "unsetBit w s l = Inr (s1, l1)"
        and f: "f w sz s1 l1 = Some y"
        by (auto split: sum.splits)
      from u have s1: "s1 = clear1 w s l" and l1: "l1 = advance w l"
        by (simp_all add: unsetBit_Inr)
      from step(1) [OF f] y obtain n where n: "stops w sz l1 n" "l' = (advance w ^^ n) l1"
        "length s' = length s1" "\<forall>k<length s1. s' ! k = s1 ! k AND NOT (walk_mask w l1 n k)"
        by blast
      have "stops w sz l (Suc n)"
        using n(1) True unfolding stops_def l1 funpow_Suc_lane by simp
      moreover have "l' = (advance w ^^ Suc n) l"
        using n(2) unfolding l1 funpow_Suc_lane .
      moreover have "length s' = length s" using n(3) s1 by simp
      moreover have "\<forall>k<length s. s' ! k = s ! k AND NOT (walk_mask w l (Suc n) k)"
      proof (intro allI impI)
        fix k assume k: "k < length s"
        then have "s' ! k = clear1 w s l ! k AND NOT (walk_mask w (advance w l) n k)"
          using n(4) unfolding s1 l1 by simp
        also have "\<dots> = s ! k AND NOT (walk_mask w l (Suc n) k)"
          unfolding nth_clear1 [OF k] and_not_or by simp
        finally show "s' ! k = s ! k AND NOT (walk_mask w l (Suc n) k)" .
      qed
      ultimately show "\<exists>n. stops w sz l n \<and> l' = (advance w ^^ n) l \<and> length s' = length s
                \<and> (\<forall>k<length s. s' ! k = s ! k AND NOT (walk_mask w l n k))"
        by blast
    qed
  qed
qed

lemma walk_mask_Suc: "walk_mask w l (Suc n) k = hit w l k OR walk_mask w (advance w l) n k"
  by (simp add: hit_def)

lemma nth_clear1_hit: "k < length s \<Longrightarrow> clear1 w s l ! k = s ! k AND NOT (hit w l k)"
  by (simp add: nth_clear1 hit_def)

lemma and_not_2: "((x :: byte_t) AND NOT h0) AND NOT h1 = x AND NOT ((h0 OR 0) OR (h1 OR 0) OR 0)"
  by (rule bit_eqI) (auto simp: bit_simps)

lemma and_not_3:
  "((((x :: byte_t) AND NOT h0) AND NOT h1) AND NOT h2) AND NOT (a OR b OR c)
     = x AND NOT ((h0 OR a) OR (h1 OR b) OR (h2 OR c))"
  by (rule bit_eqI) (auto simp: bit_simps)

lemma triple_loop_Inr:
  assumes "triple_loop w sz s l0 l1 l2 = Some y"
  shows "\<forall>s' l0' l1' l2'. y = Inr (s', l0', l1', l2') \<longrightarrow>
           (\<exists>a b c. triple_post w sz s l0 l1 l2 s' l0' l1' l2' a b c)"
  using assms
proof (induction rule: triple_loop.raw_induct [rotated 1, consumes 1, case_names step])
  case (step f w sz s l0 l1 l2 y)
  show ?case
  proof (intro allI impI)
    fix s' l0' l1' l2' assume y: "y = Inr (s', l0', l1', l2')"
    show "\<exists>a b c. triple_post w sz s l0 l1 l2 s' l0' l1' l2' a b c"
    proof (cases "multipleIndex l0 < sz")
      case False
      with step(2) y have "s' = s" "l0' = l0" "l1' = l1" "l2' = l2" by simp_all
      then have "triple_post w sz s l0 l1 l2 s' l0' l1' l2' 0 0 0"
        by (simp add: triple_post_def)
      then show ?thesis by blast
    next
      case in0: True
      with step(2) y obtain s0 l0a where u0: "unsetBit w s l0 = Inr (s0, l0a)"
        by (cases "unsetBit w s l0") auto
      then have s0: "s0 = clear1 w s l0" and l0a: "l0a = advance w l0"
        by (simp_all add: unsetBit_Inr)
      show ?thesis
      proof (cases "sz \<le> multipleIndex l1")
        case True
        with step(2) y in0 u0 have "s' = s0" "l0' = l0a" "l1' = l1" "l2' = l2" by simp_all
        then have "triple_post w sz s l0 l1 l2 s' l0' l1' l2' (Suc 0) 0 0"
          unfolding triple_post_def s0 l0a using in0
          by (simp add: nth_clear1_hit hit_def)
        then show ?thesis by blast
      next
        case in1: False
        with step(2) y in0 u0 obtain s1 l1a where u1: "unsetBit w s0 l1 = Inr (s1, l1a)"
          by (cases "unsetBit w s0 l1") auto
        then have s1: "s1 = clear1 w s0 l1" and l1a: "l1a = advance w l1"
          by (simp_all add: unsetBit_Inr)
        show ?thesis
        proof (cases "sz \<le> multipleIndex l2")
          case True
          with step(2) y in0 u0 in1 u1 have e: "s' = s1" "l0' = l0a" "l1' = l1a" "l2' = l2"
            by simp_all
          have "\<forall>k<length s. s' ! k = s ! k AND NOT (walk_mask w l0 (Suc 0) k
                   OR walk_mask w l1 (Suc 0) k OR walk_mask w l2 0 k)"
            unfolding e s1 s0 walk_mask_Suc
            by (simp add: nth_clear1_hit and_not_2)
          then have "triple_post w sz s l0 l1 l2 s' l0' l1' l2' (Suc 0) (Suc 0) 0"
            unfolding triple_post_def using in0 in1 e s1 s0 l0a l1a
            by (simp add: not_le)
          then show ?thesis by blast
        next
          case in2: False
          with step(2) y in0 u0 in1 u1 obtain s2 l2a where u2: "unsetBit w s1 l2 = Inr (s2, l2a)"
            by (cases "unsetBit w s1 l2") auto
          then have s2: "s2 = clear1 w s1 l2" and l2a: "l2a = advance w l2"
            by (simp_all add: unsetBit_Inr)
          from step(2) y in0 u0 in1 u1 in2 u2 have f: "f w sz s2 l0a l1a l2a = Some y"
            by simp
          from step(1) [OF f] y obtain a b c
            where p: "triple_post w sz s2 l0a l1a l2a s' l0' l1' l2' a b c" by blast
          have len: "length s2 = length s" by (simp add: s2 s1 s0)
          have "\<forall>k<length s. s' ! k = s ! k AND NOT (walk_mask w l0 (Suc a) k
                   OR walk_mask w l1 (Suc b) k OR walk_mask w l2 (Suc c) k)"
          proof (intro allI impI)
            fix k assume k: "k < length s"
            with p len have "s' ! k = s2 ! k AND NOT (walk_mask w l0a a k OR walk_mask w l1a b k
                                                     OR walk_mask w l2a c k)"
              by (simp add: triple_post_def)
            also have "s2 ! k = ((s ! k AND NOT (hit w l0 k)) AND NOT (hit w l1 k))
                                  AND NOT (hit w l2 k)"
              using k by (simp add: s2 s1 s0 nth_clear1_hit)
            finally show "s' ! k = s ! k AND NOT (walk_mask w l0 (Suc a) k
                   OR walk_mask w l1 (Suc b) k OR walk_mask w l2 (Suc c) k)"
              unfolding walk_mask_Suc and_not_3 l0a l1a l2a .
          qed
          with p in0 in1 in2 len
          have "triple_post w sz s l0 l1 l2 s' l0' l1' l2' (Suc a) (Suc b) (Suc c)"
            unfolding triple_post_def l0a l1a l2a funpow_Suc_lane
            by (simp add: not_le)
          then show ?thesis by blast
        qed
      qed
    qed
  qed
qed

subsection \<open>Walks\<close>

lemma inside_add:
  "inside w sz l (a + n) = (inside w sz l a \<and> inside w sz ((advance w ^^ a) l) n)"
  by (induction a arbitrary: l) (auto simp: funpow_swap1)

lemma walk_mask_add:
  "walk_mask w l (a + n) k = walk_mask w l a k OR walk_mask w ((advance w ^^ a) l) n k"
proof (induction a arbitrary: l)
  case 0
  show ?case by simp
next
  case (Suc a)
  show ?case
    unfolding add_Suc walk_mask_Suc Suc funpow_Suc_lane by (simp add: or.assoc)
qed

lemma funpow_add_lane: "(advance w ^^ (a + n)) l = (advance w ^^ n) ((advance w ^^ a) l)"
  by (induction a arbitrary: l) (simp_all add: funpow_swap1)

lemma stops_add:
  "inside w sz l a \<Longrightarrow> stops w sz ((advance w ^^ a) l) n \<Longrightarrow> stops w sz l (a + n)"
  by (simp add: stops_def inside_add funpow_add_lane)

lemma stops_0: "stops w sz l 0 = (sz \<le> multipleIndex l)"
  by (simp add: stops_def)

lemma stops_Suc:
  "stops w sz l (Suc n) = (multipleIndex l < sz \<and> stops w sz (advance w l) n)"
  by (auto simp: stops_def funpow_swap1)

lemma stops_drop:
  "stops w sz l n \<Longrightarrow> inside w sz l a \<Longrightarrow> a \<le> n \<and> stops w sz ((advance w ^^ a) l) (n - a)"
proof (induction a arbitrary: l n)
  case 0
  then show ?case by simp
next
  case (Suc a)
  from Suc.prems(2) have in0: "multipleIndex l < sz" and ins: "inside w sz (advance w l) a"
    by simp_all
  from Suc.prems(1) in0 obtain m where n: "n = Suc m"
    by (cases n) (auto simp: stops_0)
  with Suc.prems(1) have "stops w sz (advance w l) m" by (simp add: stops_Suc)
  from Suc.IH [OF this ins] show ?case
    unfolding n funpow_Suc_lane by simp
qed

lemma stops_unique: "stops w sz l n \<Longrightarrow> stops w sz l m \<Longrightarrow> n = m"
proof -
  assume n: "stops w sz l n" and m: "stops w sz l m"
  from stops_drop [OF n] m have "m \<le> n" by (simp add: stops_def)
  moreover from stops_drop [OF m] n have "n \<le> m" by (simp add: stops_def)
  ultimately show ?thesis by simp
qed

subsection \<open>The loops return\<close>

lemma unsetBit_inside:
  "multipleIndex l < sz \<Longrightarrow> unat sz \<le> length s \<Longrightarrow>
   unsetBit w s l = Inr (clear1 w s l, advance w l)"
  by (simp add: unsetBit_Inr word_less_nat_alt)

lemma scalar_loop_total:
  "stops w sz l n \<Longrightarrow> unat sz \<le> length s \<Longrightarrow>
   \<exists>s'. scalar_loop w sz s l = Some (Inr (s', (advance w ^^ n) l))"
proof (induction n arbitrary: s l)
  case 0
  then have "\<not> multipleIndex l < sz" by (simp add: stops_0 not_less)
  then show ?case by (subst scalar_loop.simps) simp
next
  case (Suc n)
  from Suc.prems(1) have in0: "multipleIndex l < sz" and st: "stops w sz (advance w l) n"
    by (simp_all add: stops_Suc)
  from Suc.prems(2) have "unat sz \<le> length (clear1 w s l)" by simp
  from Suc.IH [OF st this] obtain s'
    where "scalar_loop w sz (clear1 w s l) (advance w l)
             = Some (Inr (s', (advance w ^^ n) (advance w l)))" by blast
  then have "scalar_loop w sz s l = Some (Inr (s', (advance w ^^ Suc n) l))"
    unfolding funpow_Suc_lane
    by (subst scalar_loop.simps) (simp add: in0 unsetBit_inside [OF in0 Suc.prems(2)])
  then show ?case by blast
qed

lemma triple_loop_total:
  "stops w sz l0 n0 \<Longrightarrow> stops w sz l1 n1 \<Longrightarrow> stops w sz l2 n2 \<Longrightarrow> unat sz \<le> length s \<Longrightarrow>
   \<exists>r. triple_loop w sz s l0 l1 l2 = Some (Inr r)"
proof (induction n0 arbitrary: s l0 l1 l2 n1 n2)
  case 0
  then have "\<not> multipleIndex l0 < sz" by (simp add: stops_0 not_less)
  then show ?case by (subst triple_loop.simps) simp
next
  case (Suc n0)
  from Suc.prems(1) have in0: "multipleIndex l0 < sz" and st0: "stops w sz (advance w l0) n0"
    by (simp_all add: stops_Suc)
  note u0 = unsetBit_inside [OF in0 Suc.prems(4)]
  have len0: "unat sz \<le> length (clear1 w s l0)" using Suc.prems(4) by simp
  show ?case
  proof (cases "sz \<le> multipleIndex l1")
    case True
    then show ?thesis by (subst triple_loop.simps) (simp add: in0 u0)
  next
    case False
    then have in1: "multipleIndex l1 < sz" by (simp add: not_le)
    with Suc.prems(2) obtain m1 where n1: "n1 = Suc m1" by (cases n1) (auto simp: stops_0)
    with Suc.prems(2) have st1: "stops w sz (advance w l1) m1" by (simp add: stops_Suc)
    note u1 = unsetBit_inside [OF in1 len0]
    have len1: "unat sz \<le> length (clear1 w (clear1 w s l0) l1)" using Suc.prems(4) by simp
    show ?thesis
    proof (cases "sz \<le> multipleIndex l2")
      case True
      then show ?thesis by (subst triple_loop.simps) (simp add: in0 u0 False u1)
    next
      case nin2: False
      then have in2: "multipleIndex l2 < sz" by (simp add: not_le)
      with Suc.prems(3) obtain m2 where n2: "n2 = Suc m2" by (cases n2) (auto simp: stops_0)
      with Suc.prems(3) have st2: "stops w sz (advance w l2) m2" by (simp add: stops_Suc)
      note u2 = unsetBit_inside [OF in2 len1]
      have len2: "unat sz \<le> length (clear1 w (clear1 w (clear1 w s l0) l1) l2)"
        using Suc.prems(4) by simp
      from Suc.IH [OF st0 st1 st2 len2] obtain r
        where "triple_loop w sz (clear1 w (clear1 w (clear1 w s l0) l1) l2)
                 (advance w l0) (advance w l1) (advance w l2) = Some (Inr r)" by blast
      then have "triple_loop w sz s l0 l1 l2 = Some (Inr r)"
        by (subst triple_loop.simps) (simp add: in0 u0 False u1 nin2 u2)
      then show ?thesis by blast
    qed
  qed
qed

subsection \<open>One record, three records\<close>

lemma bind_res_Inr:
  "bind_res m f = Some (Inr y) \<longleftrightarrow> (\<exists>x. m = Some (Inr x) \<and> f x = Some (Inr y))"
  by (auto simp: bind_res_def split: option.splits sum.splits)

lemma bind_res_Some_Inr [simp]: "bind_res (Some (Inr x)) f = f x"
  by (simp add: bind_res_def)

lemma crossOff_single_Inr:
  assumes "crossOff_single w sz s p = Some (Inr (s', q))"
  shows "\<exists>n. lane_done w sz p n q \<and> length s' = length s
             \<and> (\<forall>k<length s. s' ! k = s ! k AND NOT (walk_mask w (load p) n k))"
proof -
  from assms obtain l' where sl: "scalar_loop w sz s (load p) = Some (Inr (s', l'))"
    and q: "q = store sz l' p"
    by (auto simp: crossOff_single_def bind_res_Inr)
  from scalar_loop_Inr [OF sl] obtain n where "stops w sz (load p) n"
    "l' = (advance w ^^ n) (load p)" "length s' = length s"
    "\<forall>k<length s. s' ! k = s ! k AND NOT (walk_mask w (load p) n k)" by blast
  with q show ?thesis unfolding lane_done_def by blast
qed

lemma crossOff_single_total:
  assumes "stops w sz (load p) n" "unat sz \<le> length s"
  shows "\<exists>r. crossOff_single w sz s p = Some (Inr r)"
proof -
  from scalar_loop_total [OF assms] obtain s'
    where "scalar_loop w sz s (load p) = Some (Inr (s', (advance w ^^ n) (load p)))" by blast
  then show ?thesis by (simp add: crossOff_single_def)
qed

lemma and_not_6:
  "(((((x :: byte_t) AND NOT (a0 OR a1 OR a2)) AND NOT b0) AND NOT b1) AND NOT b2)
     = x AND NOT ((a0 OR b0) OR (a1 OR b1) OR (a2 OR b2))"
  by (rule bit_eqI) (auto simp: bit_simps)

lemma crossOff_triple_Inr:
  assumes "crossOff_triple w sz s p0 p1 p2 = Some (Inr (s', q0, q1, q2))"
  shows "\<exists>n0 n1 n2. lane_done w sz p0 n0 q0 \<and> lane_done w sz p1 n1 q1
             \<and> lane_done w sz p2 n2 q2 \<and> length s' = length s
             \<and> (\<forall>k<length s. s' ! k = s ! k AND NOT (walk_mask w (load p0) n0 k
                    OR walk_mask w (load p1) n1 k OR walk_mask w (load p2) n2 k))"
proof -
  from assms obtain sa l0a l1a l2a sb l0b sc l1b l2b
    where t: "triple_loop w sz s (load p0) (load p1) (load p2) = Some (Inr (sa, l0a, l1a, l2a))"
      and s0: "scalar_loop w sz sa l0a = Some (Inr (sb, l0b))"
      and s1: "scalar_loop w sz sb l1a = Some (Inr (sc, l1b))"
      and s2: "scalar_loop w sz sc l2a = Some (Inr (s', l2b))"
      and q: "q0 = store sz l0b p0" "q1 = store sz l1b p1" "q2 = store sz l2b p2"
    by (auto simp: crossOff_triple_def bind_res_Inr)
  from triple_loop_Inr [OF t] obtain a b c
    where tp: "triple_post w sz s (load p0) (load p1) (load p2) sa l0a l1a l2a a b c" by blast
  then have ins: "inside w sz (load p0) a" "inside w sz (load p1) b" "inside w sz (load p2) c"
    and la: "l0a = (advance w ^^ a) (load p0)" "l1a = (advance w ^^ b) (load p1)"
            "l2a = (advance w ^^ c) (load p2)"
    and lena: "length sa = length s"
    and sa: "\<forall>k<length s. sa ! k = s ! k AND NOT (walk_mask w (load p0) a k
                 OR walk_mask w (load p1) b k OR walk_mask w (load p2) c k)"
    by (simp_all add: triple_post_def)
  from scalar_loop_Inr [OF s0] obtain m0 where m0: "stops w sz l0a m0"
    "l0b = (advance w ^^ m0) l0a" "length sb = length sa"
    "\<forall>k<length sa. sb ! k = sa ! k AND NOT (walk_mask w l0a m0 k)" by blast
  from scalar_loop_Inr [OF s1] obtain m1 where m1: "stops w sz l1a m1"
    "l1b = (advance w ^^ m1) l1a" "length sc = length sb"
    "\<forall>k<length sb. sc ! k = sb ! k AND NOT (walk_mask w l1a m1 k)" by blast
  from scalar_loop_Inr [OF s2] obtain m2 where m2: "stops w sz l2a m2"
    "l2b = (advance w ^^ m2) l2a" "length s' = length sc"
    "\<forall>k<length sc. s' ! k = sc ! k AND NOT (walk_mask w l2a m2 k)" by blast
  have "lane_done w sz p0 (a + m0) q0"
    unfolding lane_done_def using stops_add [OF ins(1)] m0(1,2) q(1) la(1)
    by (simp add: funpow_add_lane)
  moreover have "lane_done w sz p1 (b + m1) q1"
    unfolding lane_done_def using stops_add [OF ins(2)] m1(1,2) q(2) la(2)
    by (simp add: funpow_add_lane)
  moreover have "lane_done w sz p2 (c + m2) q2"
    unfolding lane_done_def using stops_add [OF ins(3)] m2(1,2) q(3) la(3)
    by (simp add: funpow_add_lane)
  moreover have "length s' = length s" using m2(3) m1(3) m0(3) lena by simp
  moreover have "\<forall>k<length s. s' ! k = s ! k AND NOT (walk_mask w (load p0) (a + m0) k
                    OR walk_mask w (load p1) (b + m1) k OR walk_mask w (load p2) (c + m2) k)"
  proof (intro allI impI)
    fix k assume k: "k < length s"
    have "s' ! k = (((sa ! k AND NOT (walk_mask w l0a m0 k)) AND NOT (walk_mask w l1a m1 k))
                      AND NOT (walk_mask w l2a m2 k))"
      using k m0(3,4) m1(3,4) m2(3,4) lena by simp
    also have "sa ! k = s ! k AND NOT (walk_mask w (load p0) a k
                 OR walk_mask w (load p1) b k OR walk_mask w (load p2) c k)"
      using sa k by simp
    finally show "s' ! k = s ! k AND NOT (walk_mask w (load p0) (a + m0) k
                    OR walk_mask w (load p1) (b + m1) k OR walk_mask w (load p2) (c + m2) k)"
      unfolding and_not_6 walk_mask_add la .
  qed
  ultimately show ?thesis by blast
qed

lemma crossOff_triple_total:
  assumes "stops w sz (load p0) n0" "stops w sz (load p1) n1" "stops w sz (load p2) n2"
    and len: "unat sz \<le> length s"
  shows "\<exists>r. crossOff_triple w sz s p0 p1 p2 = Some (Inr r)"
proof -
  from triple_loop_total [OF assms] obtain sa l0a l1a l2a
    where t: "triple_loop w sz s (load p0) (load p1) (load p2) = Some (Inr (sa, l0a, l1a, l2a))"
    by (metis prod_cases4)
  from triple_loop_Inr [OF t] obtain a b c
    where tp: "triple_post w sz s (load p0) (load p1) (load p2) sa l0a l1a l2a a b c" by blast
  then have ins: "inside w sz (load p0) a" "inside w sz (load p1) b" "inside w sz (load p2) c"
    and la: "l0a = (advance w ^^ a) (load p0)" "l1a = (advance w ^^ b) (load p1)"
            "l2a = (advance w ^^ c) (load p2)"
    and lena: "length sa = length s"
    by (simp_all add: triple_post_def)
  from stops_drop [OF assms(1) ins(1)] have st0: "stops w sz l0a (n0 - a)" by (simp add: la)
  from stops_drop [OF assms(2) ins(2)] have st1: "stops w sz l1a (n1 - b)" by (simp add: la)
  from stops_drop [OF assms(3) ins(3)] have st2: "stops w sz l2a (n2 - c)" by (simp add: la)
  from scalar_loop_total [OF st0, of sa] len lena obtain sb
    where s0: "scalar_loop w sz sa l0a = Some (Inr (sb, (advance w ^^ (n0 - a)) l0a))" by auto
  from scalar_loop_Inr [OF s0] have lenb: "length sb = length sa" by blast
  from scalar_loop_total [OF st1, of sb] len lena lenb obtain sc
    where s1: "scalar_loop w sz sb l1a = Some (Inr (sc, (advance w ^^ (n1 - b)) l1a))" by auto
  from scalar_loop_Inr [OF s1] have lenc: "length sc = length sb" by blast
  from scalar_loop_total [OF st2, of sc] len lena lenb lenc obtain sd
    where s2: "scalar_loop w sz sc l2a = Some (Inr (sd, (advance w ^^ (n2 - c)) l2a))" by auto
  show ?thesis by (simp add: crossOff_triple_def t s0 s1 s2)
qed

subsection \<open>All records\<close>

lemma crossed_Nil: "crossed w sz s [] s [] []"
  by (simp add: crossed_def)

lemma crossed_Cons:
  assumes "lane_done w sz p n q" "length s1 = length s"
    "\<forall>k<length s. s1 ! k = s ! k AND NOT (walk_mask w (load p) n k)"
    "crossed w sz s1 ps s' qs ns"
  shows "crossed w sz s (p # ps) s' (q # qs) (n # ns)"
  using assms unfolding crossed_def by (simp add: and_not_or)

lemma crossed_Cons3:
  assumes "lane_done w sz p0 n0 q0" "lane_done w sz p1 n1 q1" "lane_done w sz p2 n2 q2"
    "length s1 = length s"
    "\<forall>k<length s. s1 ! k = s ! k AND NOT (walk_mask w (load p0) n0 k
         OR walk_mask w (load p1) n1 k OR walk_mask w (load p2) n2 k)"
    "crossed w sz s1 ps s' qs ns"
  shows "crossed w sz s (p0 # p1 # p2 # ps) s' (q0 # q1 # q2 # qs) (n0 # n1 # n2 # ns)"
  using assms unfolding crossed_def by (simp add: and.assoc)

lemma remaining_loop_Inr:
  "remaining_loop w sz s ps = Some (Inr (s', qs)) \<Longrightarrow> \<exists>ns. crossed w sz s ps s' qs ns"
proof (induction ps arbitrary: s s' qs)
  case Nil
  then have "s' = s" "qs = []" by simp_all
  then show ?case using crossed_Nil by blast
next
  case (Cons p ps)
  from Cons.prems obtain s1 q qs1
    where c: "crossOff_single w sz s p = Some (Inr (s1, q))"
      and r: "remaining_loop w sz s1 ps = Some (Inr (s', qs1))"
      and qs: "qs = q # qs1"
    by (auto simp: bind_res_Inr)
  from crossOff_single_Inr [OF c] obtain n where n: "lane_done w sz p n q"
    "length s1 = length s" "\<forall>k<length s. s1 ! k = s ! k AND NOT (walk_mask w (load p) n k)"
    by blast
  from Cons.IH [OF r] obtain ns where "crossed w sz s1 ps s' qs1 ns" by blast
  from crossed_Cons [OF n this] show ?case unfolding qs by blast
qed

lemma triples_loop_Inr:
  "triples_loop w sz s ps = Some (Inr (s', qs)) \<Longrightarrow> \<exists>ns. crossed w sz s ps s' qs ns"
proof (induction w sz s ps arbitrary: s' qs rule: triples_loop.induct)
  case (1 w sz s p0 p1 p2 p3 ps)
  from "1.prems" obtain s1 q0 q1 q2 qs1
    where c: "crossOff_triple w sz s p0 p1 p2 = Some (Inr (s1, q0, q1, q2))"
      and r: "triples_loop w sz s1 (p3 # ps) = Some (Inr (s', qs1))"
      and qs: "qs = q0 # q1 # q2 # qs1"
    by (auto simp: bind_res_Inr)
  from crossOff_triple_Inr [OF c] obtain n0 n1 n2 where n:
    "lane_done w sz p0 n0 q0" "lane_done w sz p1 n1 q1" "lane_done w sz p2 n2 q2"
    "length s1 = length s"
    "\<forall>k<length s. s1 ! k = s ! k AND NOT (walk_mask w (load p0) n0 k
         OR walk_mask w (load p1) n1 k OR walk_mask w (load p2) n2 k)"
    by blast
  from "1.IH" [OF r] obtain ns where "crossed w sz s1 (p3 # ps) s' qs1 ns" by blast
  from crossed_Cons3 [OF n this] show ?case unfolding qs by blast
qed (simp_all only: triples_loop.simps remaining_loop_Inr)

lemma remaining_loop_total:
  "\<forall>p\<in>set ps. \<exists>n. stops w sz (load p) n \<Longrightarrow> unat sz \<le> length s \<Longrightarrow>
   \<exists>r. remaining_loop w sz s ps = Some (Inr r)"
proof (induction ps arbitrary: s)
  case Nil
  show ?case by simp
next
  case (Cons p ps)
  from Cons.prems(1) obtain n where "stops w sz (load p) n" by auto
  from crossOff_single_total [OF this Cons.prems(2)] obtain s1 q
    where c: "crossOff_single w sz s p = Some (Inr (s1, q))" by fastforce
  from crossOff_single_Inr [OF c] Cons.prems(2) have "unat sz \<le> length s1" by auto
  with Cons.IH [of s1] Cons.prems(1) obtain s' qs
    where "remaining_loop w sz s1 ps = Some (Inr (s', qs))" by fastforce
  with c show ?case by simp
qed

lemma triples_loop_total:
  "\<forall>p\<in>set ps. \<exists>n. stops w sz (load p) n \<Longrightarrow> unat sz \<le> length s \<Longrightarrow>
   \<exists>r. triples_loop w sz s ps = Some (Inr r)"
proof (induction w sz s ps rule: triples_loop.induct)
  case (1 w sz s p0 p1 p2 p3 ps)
  from "1.prems"(1) obtain n0 n1 n2 where "stops w sz (load p0) n0"
    "stops w sz (load p1) n1" "stops w sz (load p2) n2" by auto
  from crossOff_triple_total [OF this "1.prems"(2)] obtain s1 q0 q1 q2
    where c: "crossOff_triple w sz s p0 p1 p2 = Some (Inr (s1, q0, q1, q2))"
    by (metis prod_cases4)
  from crossOff_triple_Inr [OF c] "1.prems"(2) have len: "unat sz \<le> length s1" by auto
  have "\<exists>r. triples_loop w sz s1 (p3 # ps) = Some (Inr r)"
    by (rule "1.IH" [OF _ len]) (use "1.prems"(1) in auto)
  then obtain s' qs where "triples_loop w sz s1 (p3 # ps) = Some (Inr (s', qs))" by fastforce
  with c show ?case by simp
qed (simp_all only: triples_loop.simps remaining_loop_total)

subsection \<open>crossOff\<close>

lemma crossOff_Inr:
  assumes "crossOff w s sz em = Some (Inr (s', em'))"
  shows "m_primes em \<noteq> [] \<and> em' = em\<lparr>m_primes := m_primes em'\<rparr>
         \<and> (\<exists>ns. crossed w sz s (m_primes em) s' (m_primes em') ns)"
proof -
  from assms have ne: "m_primes em \<noteq> []"
    by (auto simp: crossOff_def split: if_splits)
  with assms obtain qs where t: "triples_loop w sz s (m_primes em) = Some (Inr (s', qs))"
    and em': "em' = em\<lparr>m_primes := qs\<rparr>"
    by (auto simp: crossOff_def bind_res_Inr)
  from triples_loop_Inr [OF t] obtain ns where "crossed w sz s (m_primes em) s' qs ns" by blast
  with ne em' show ?thesis by auto
qed

lemma crossOff_total:
  assumes "m_primes em \<noteq> []" "\<forall>p\<in>set (m_primes em). \<exists>n. stops w sz (load p) n"
    "unat sz \<le> length s"
  shows "\<exists>s' em'. crossOff w s sz em = Some (Inr (s', em'))"
proof -
  from triples_loop_total [OF assms(2,3)] obtain s' qs
    where "triples_loop w sz s (m_primes em) = Some (Inr (s', qs))" by fastforce
  with assms(1) show ?thesis by (simp add: crossOff_def)
qed

lemma lanes_done_length:
  "lanes_done w sz ps ns qs \<Longrightarrow> length ns = length ps \<and> length qs = length ps"
  by (induction w sz ps ns qs rule: lanes_done.induct) auto

lemma lanes_done_nth:
  "lanes_done w sz ps ns qs \<Longrightarrow> i < length ps \<Longrightarrow> lane_done w sz (ps ! i) (ns ! i) (qs ! i)"
proof (induction w sz ps ns qs arbitrary: i rule: lanes_done.induct)
  case (2 w sz p ps n ns q qs)
  then show ?case by (cases i) auto
qed auto

lemma inside_iff:
  "inside w sz l n = (\<forall>j<n. multipleIndex ((advance w ^^ j) l) < sz)"
proof (induction n arbitrary: l)
  case 0
  show ?case by simp
next
  case (Suc n)
  show ?case
    unfolding inside.simps Suc
    by (auto simp: less_Suc_eq_0_disj funpow_swap1)
qed

subsection \<open>Errors of the loops\<close>

lemma scalar_loop_Inl:
  assumes "scalar_loop w sz s l = Some y"
  shows "y = Inl e \<longrightarrow> e = Sieve_out_of_bounds"
  using assms
proof (induction rule: scalar_loop.raw_induct [rotated 1, consumes 1, case_names step])
  case (step f w sz s l y)
  show ?case
  proof (cases "unsetBit w s l")
    case (Inl e')
    then have "e' = Sieve_out_of_bounds" by (simp add: unsetBit_Inl)
    with Inl step(2) show ?thesis by (auto split: if_splits)
  next
    case (Inr r)
    with step(2) show ?thesis
      by (cases r) (auto split: if_splits dest: step(1) [THEN mp])
  qed
qed

lemma triple_loop_Inl:
  assumes "triple_loop w sz s l0 l1 l2 = Some y"
  shows "y = Inl e \<longrightarrow> e = Sieve_out_of_bounds"
  using assms
proof (induction rule: triple_loop.raw_induct [rotated 1, consumes 1, case_names step])
  case (step f w sz s l0 l1 l2 y)
  have ih: "\<And>w sz s a b c. f w sz s a b c = Some (Inl e) \<Longrightarrow> e = Sieve_out_of_bounds"
    using step(1) by blast
  from step(2) show ?case
    by (auto simp: unsetBit_Inl split: if_splits sum.splits) (erule ih)
qed

lemma bind_res_Inl:
  "bind_res m f = Some (Inl e) \<longleftrightarrow>
     m = Some (Inl e) \<or> (\<exists>x. m = Some (Inr x) \<and> f x = Some (Inl e))"
  by (auto simp: bind_res_def split: option.splits sum.splits)

lemma crossOff_single_Inl:
  "crossOff_single w sz s p = Some (Inl e) \<Longrightarrow> e = Sieve_out_of_bounds"
  by (auto simp: crossOff_single_def bind_res_Inl dest: scalar_loop_Inl)

lemma crossOff_triple_Inl:
  "crossOff_triple w sz s p0 p1 p2 = Some (Inl e) \<Longrightarrow> e = Sieve_out_of_bounds"
  by (auto simp: crossOff_triple_def bind_res_Inl dest: scalar_loop_Inl triple_loop_Inl)

lemma remaining_loop_Inl:
  "remaining_loop w sz s ps = Some (Inl e) \<Longrightarrow> e = Sieve_out_of_bounds"
  by (induction ps arbitrary: s) (auto simp: bind_res_Inl dest: crossOff_single_Inl)

lemma triples_loop_Inl:
  "triples_loop w sz s ps = Some (Inl e) \<Longrightarrow> e = Sieve_out_of_bounds"
proof (induction w sz s ps rule: triples_loop.induct)
  case (1 w sz s p0 p1 p2 p3 ps)
  then show ?case by (auto simp: bind_res_Inl dest: crossOff_triple_Inl)
qed (simp_all only: triples_loop.simps remaining_loop_Inl)

section \<open>What crossOff writes back\<close>

lemma em_small_crossOff:
  "crossOff wheel210 (replicate 16 255) 16 em_small = Some (Inr (sieve_small', em_small'))"
  by code_simp

text \<open>
  C4. When \<open>crossOff(sieve, sieveSize)\<close> returns, every record has been advanced by wheel
  steps, from the indexes it held, through positions below \<open>sieveSize\<close> to the first
  position at or beyond \<open>sieveSize\<close>; the multiple index written back is that position
  minus \<open>sieveSize\<close>, a subtraction that does not wrap, the wheel index is the one reached,
  and the sieving prime is unchanged.
\<close>

theorem crossOff_writes_back:
  assumes "crossOff wheel sieve sieveSize em = Some (Inr (sieve', em'))"
    and "i < length (m_primes em)"
  shows "length (m_primes em') = length (m_primes em)
    \<and> (\<exists>n. (\<forall>j<n. multipleIndex ((advance wheel ^^ j) (load (m_primes em ! i))) < sieveSize)
         \<and> sieveSize \<le> multipleIndex ((advance wheel ^^ n) (load (m_primes em ! i)))
         \<and> getMultipleIndex (m_primes em' ! i)
             = multipleIndex ((advance wheel ^^ n) (load (m_primes em ! i))) - sieveSize
         \<and> unat (getMultipleIndex (m_primes em' ! i))
             = unat (multipleIndex ((advance wheel ^^ n) (load (m_primes em ! i))))
                 - unat sieveSize
         \<and> getWheelIndex (m_primes em' ! i)
             = wheelIndex ((advance wheel ^^ n) (load (m_primes em ! i)))
         \<and> getSievingPrime (m_primes em' ! i) = getSievingPrime (m_primes em ! i))"
proof -
  from crossOff_Inr [OF assms(1)] obtain ns
    where c: "crossed wheel sieveSize sieve (m_primes em) sieve' (m_primes em') ns" by blast
  then have ld: "lanes_done wheel sieveSize (m_primes em) ns (m_primes em')"
    by (simp add: crossed_def)
  let ?p = "m_primes em ! i" and ?q = "m_primes em' ! i" and ?n = "ns ! i"
  let ?l = "(advance wheel ^^ ?n) (load ?p)"
  from lanes_done_nth [OF ld assms(2)] have st: "stops wheel sieveSize (load ?p) ?n"
    and q: "?q = store sieveSize ?l ?p"
    by (simp_all add: lane_done_def)
  from st have ins: "\<forall>j<?n. multipleIndex ((advance wheel ^^ j) (load ?p)) < sieveSize"
    and out: "sieveSize \<le> multipleIndex ?l"
    by (simp_all add: stops_def inside_iff)
  have "getMultipleIndex ?q = multipleIndex ?l - sieveSize"
    "getWheelIndex ?q = wheelIndex ?l" "getSievingPrime ?q = getSievingPrime ?p"
    unfolding q by (simp_all add: store_def set_indexes_def)
  moreover from out have "unat (multipleIndex ?l - sieveSize)
      = unat (multipleIndex ?l) - unat sieveSize"
    by (simp add: unat_sub)
  ultimately show ?thesis
    using lanes_done_length [OF ld] ins out by (intro conjI exI [of _ ?n]) simp_all
qed

theorem crossOff_writes_back_witness:
  "crossOff wheel210 (replicate 16 255) 16 em_small = Some (Inr (sieve_small', em_small'))
   \<and> (0::nat) < length (m_primes em_small)
   \<and> length (m_primes em_small') = length (m_primes em_small)
   \<and> (\<exists>n. (\<forall>j<n. multipleIndex ((advance wheel210 ^^ j) (load (m_primes em_small ! 0))) < 16)
         \<and> 16 \<le> multipleIndex ((advance wheel210 ^^ n) (load (m_primes em_small ! 0)))
         \<and> getMultipleIndex (m_primes em_small' ! 0)
             = multipleIndex ((advance wheel210 ^^ n) (load (m_primes em_small ! 0))) - 16
         \<and> unat (getMultipleIndex (m_primes em_small' ! 0))
             = unat (multipleIndex ((advance wheel210 ^^ n) (load (m_primes em_small ! 0))))
                 - unat (16 :: u64)
         \<and> getWheelIndex (m_primes em_small' ! 0)
             = wheelIndex ((advance wheel210 ^^ n) (load (m_primes em_small ! 0)))
         \<and> getSievingPrime (m_primes em_small' ! 0) = getSievingPrime (m_primes em_small ! 0))"
proof -
  have h: "(0::nat) < length (m_primes em_small)" by (simp add: em_small_def)
  from crossOff_writes_back [OF em_small_crossOff h] em_small_crossOff h
  show ?thesis by blast
qed

section \<open>crossOff on an engine without sieving primes\<close>

text \<open>
  C10. \<open>crossOff\<close> reads \<open>primes_[0]\<close> and \<open>primes_.back()\<close> unconditionally: on an
  engine that holds no sieving prime (as the constructor leaves it) this is an access
  outside the vector. A call of \<open>storeSievingPrime\<close> that returns leaves the vector
  non-empty, a call of \<open>crossOff\<close> that returns keeps it non-empty, and on a non-empty
  vector \<open>crossOff\<close> does not end in that error, whatever the sieve and the wheel.
\<close>

theorem crossOff_empty_primes:
  "(m_primes em = [] \<longrightarrow>
      crossOff wheel sieve sieveSize em = Some (Inl Vector_out_of_bounds))
   \<and> (storeSievingPrime prime mi wi em = Inr em' \<longrightarrow> m_primes em' \<noteq> [])
   \<and> (crossOff wheel sieve sieveSize em = Some (Inr (sieve', em'')) \<longrightarrow> m_primes em'' \<noteq> [])
   \<and> (m_primes em \<noteq> [] \<longrightarrow>
        crossOff wheel sieve sieveSize em \<noteq> Some (Inl Vector_out_of_bounds))"
proof (intro conjI impI)
  assume "m_primes em = []"
  then show "crossOff wheel sieve sieveSize em = Some (Inl Vector_out_of_bounds)"
    by (simp add: crossOff_def)
next
  assume "storeSievingPrime prime mi wi em = Inr em'"
  then show "m_primes em' \<noteq> []"
    by (auto simp: storeSievingPrime_def Let_def split: if_splits)
next
  assume c: "crossOff wheel sieve sieveSize em = Some (Inr (sieve', em''))"
  from crossOff_Inr [OF c] obtain ns
    where ne: "m_primes em \<noteq> []"
      and "crossed wheel sieveSize sieve (m_primes em) sieve' (m_primes em'') ns" by blast
  then have "length (m_primes em'') = length (m_primes em)"
    by (auto simp: crossed_def dest: lanes_done_length)
  with ne show "m_primes em'' \<noteq> []" by auto
next
  assume ne: "m_primes em \<noteq> []"
  show "crossOff wheel sieve sieveSize em \<noteq> Some (Inl Vector_out_of_bounds)"
  proof
    assume "crossOff wheel sieve sieveSize em = Some (Inl Vector_out_of_bounds)"
    with ne have "\<exists>e. triples_loop wheel sieveSize sieve (m_primes em) = Some (Inl e)
                     \<and> e = Vector_out_of_bounds"
      by (auto simp: crossOff_def bind_res_Inl)
    then show False by (auto dest: triples_loop_Inl)
  qed
qed

theorem crossOff_empty_primes_witness:
  "m_primes \<lparr>m_stop = 479, m_maxPrime = 23, m_primes = []\<rparr> = []
   \<and> crossOff wheel210 (replicate 16 255) 16 \<lparr>m_stop = 479, m_maxPrime = 23, m_primes = []\<rparr>
       = Some (Inl Vector_out_of_bounds)
   \<and> storeSievingPrime 11 4 97 \<lparr>m_stop = 479, m_maxPrime = 23, m_primes = []\<rparr>
       = Inr \<lparr>m_stop = 479, m_maxPrime = 23,
              m_primes = [\<lparr>getSievingPrime = 0, getMultipleIndex = 4, getWheelIndex = 97\<rparr>]\<rparr>
   \<and> m_primes \<lparr>m_stop = 479, m_maxPrime = 23,
         m_primes = [\<lparr>getSievingPrime = 0, getMultipleIndex = 4, getWheelIndex = 97\<rparr>]\<rparr> \<noteq> []
   \<and> crossOff wheel210 (replicate 16 255) 16 em_small = Some (Inr (sieve_small', em_small'))
   \<and> m_primes em_small \<noteq> []
   \<and> m_primes em_small' \<noteq> []
   \<and> crossOff wheel210 (replicate 16 255) 16 em_small \<noteq> Some (Inl Vector_out_of_bounds)"
proof -
  have s: "storeSievingPrime 11 4 97 \<lparr>m_stop = 479, m_maxPrime = 23, m_primes = []\<rparr>
       = Inr \<lparr>m_stop = 479, m_maxPrime = 23,
              m_primes = [\<lparr>getSievingPrime = 0, getMultipleIndex = 4, getWheelIndex = 97\<rparr>]\<rparr>"
    by (simp add: storeSievingPrime_def SievingPrime_new_def NUMBERS_PER_BYTE_def)
  have ne: "m_primes em_small \<noteq> []" by (simp add: em_small_def)
  from crossOff_empty_primes
    [of "\<lparr>m_stop = 479, m_maxPrime = 23, m_primes = []\<rparr>" wheel210 "replicate 16 255" 16
        11 4 97
        "\<lparr>m_stop = 479, m_maxPrime = 23,
          m_primes = [\<lparr>getSievingPrime = 0, getMultipleIndex = 4, getWheelIndex = 97\<rparr>]\<rparr>"]
    s
  have a: "crossOff wheel210 (replicate 16 255) 16 \<lparr>m_stop = 479, m_maxPrime = 23, m_primes = []\<rparr>
       = Some (Inl Vector_out_of_bounds)"
    "m_primes \<lparr>m_stop = 479, m_maxPrime = 23,
         m_primes = [\<lparr>getSievingPrime = 0, getMultipleIndex = 4, getWheelIndex = 97\<rparr>]\<rparr> \<noteq> []"
    by simp_all
  from crossOff_empty_primes
    [of em_small wheel210 "replicate 16 255" 16 _ _ _ _ sieve_small' em_small']
    em_small_crossOff ne
  have b: "m_primes em_small' \<noteq> []"
    "crossOff wheel210 (replicate 16 255) 16 em_small \<noteq> Some (Inl Vector_out_of_bounds)"
    by blast+
  from a b s ne em_small_crossOff show ?thesis by simp
qed

section \<open>Multiples on a wheel\<close>

lemma div30_split:
  assumes "30 dvd (M::nat)"
  shows "p * (M * t + x) div 30
           = (p div 30) * (M * t + x) + (p mod 30) * (M div 30) * t + (p mod 30) * x div 30"
proof -
  from assms obtain m where M: "M = 30 * m" by (auto simp: dvd_def)
  define q where "q = p div 30"
  define r where "r = p mod 30"
  have p: "p = 30 * q + r" by (simp add: q_def r_def)
  have "p * (M * t + x) = (q * (M * t + x) + r * m * t) * 30 + r * x"
    unfolding M p by (simp add: algebra_simps)
  then have "p * (M * t + x) div 30 = (q * (M * t + x) + r * m * t) + r * x div 30"
    by simp
  then show ?thesis by (simp add: M q_def r_def)
qed

lemma multiple_step:
  assumes "30 dvd (M::nat)"
  shows "p * (c + g) div 30
           = p * c div 30 + (p div 30) * g
               + ((p mod 30) * (c mod M + g) div 30 - (p mod 30) * (c mod M) div 30)"
proof -
  have 1: "p * c div 30 = (p div 30) * c + (p mod 30) * (M div 30) * (c div M)
                            + (p mod 30) * (c mod M) div 30"
    using div30_split [OF assms(1), of p "c div M" "c mod M"] by simp
  have "c + g = M * (c div M) + (c mod M + g)" by simp
  then have 2: "p * (c + g) div 30 = (p div 30) * (c + g) + (p mod 30) * (M div 30) * (c div M)
                            + (p mod 30) * (c mod M + g) div 30"
    using div30_split [OF assms(1), of p "c div M" "c mod M + g"] by simp
  have "(p mod 30) * (c mod M) div 30 \<le> (p mod 30) * (c mod M + g) div 30"
    by (intro div_le_mono mult_le_mono) simp_all
  with 1 2 show ?thesis by (simp add: algebra_simps)
qed

lemma multiple_mod30:
  assumes "30 dvd (M::nat)"
  shows "p * c mod 30 = (p mod 30) * (c mod M) mod 30"
proof -
  have "c mod M mod 30 = c mod 30" using assms by (simp add: mod_mod_cancel)
  then have "(p mod 30) * (c mod M) mod 30 = (p mod 30) * (c mod 30) mod 30"
    by (metis mod_mult_right_eq)
  also have "\<dots> = p * c mod 30" by (simp add: mod_mult_eq)
  finally show ?thesis by simp
qed

lemma coprime_shift:
  assumes "0 < (M::nat)"
  shows "coprime (c + j) M = coprime (c mod M + j) M"
proof -
  have "(c + j) mod M = (c mod M + j) mod M" by (simp add: mod_add_left_eq)
  moreover have "coprime ((c + j) mod M) M = coprime (c + j) M"
    using assms by (simp add: coprime_mod_left_iff)
  moreover have "coprime ((c mod M + j) mod M) M = coprime (c mod M + j) M"
    using assms by (simp add: coprime_mod_left_iff)
  ultimately show ?thesis by simp
qed

lemma residues_index: "b < 8 \<Longrightarrow> index_of (residues ! b) residues = b"
proof -
  have "list_all (\<lambda>b. index_of (residues ! b) residues = b) [0..<8]" by code_simp
  then show "b < 8 \<Longrightarrow> index_of (residues ! b) residues = b"
    by (simp add: list_all_iff)
qed

lemma residues_less: "b < 8 \<Longrightarrow> residues ! b < 30"
proof -
  have "list_all (\<lambda>b. residues ! b < 30) [0..<8]" by code_simp
  then show "b < 8 \<Longrightarrow> residues ! b < 30"
    by (simp add: list_all_iff)
qed

lemma coprime30_residue:
  assumes "coprime (x::nat) 30"
  shows "index_of (x mod 30) residues < 8 \<and> residues ! index_of (x mod 30) residues = x mod 30"
proof -
  have "list_all (\<lambda>y. coprime y 30 \<longrightarrow>
          index_of y residues < 8 \<and> residues ! index_of y residues = y) [0..<30]"
    by code_simp
  moreover have "x mod 30 < 30" by simp
  moreover have "coprime (x mod 30) 30" using assms by (simp add: coprime_mod_left_iff)
  ultimately show ?thesis by (simp add: list_all_iff)
qed

lemma bit_single: "bit (push_bit i 1 :: byte_t) b = (b = i \<and> i < 8)"
  by (auto simp: bit_push_bit_iff bit_1_iff bit_simps simp del: push_bit_of_1)

lemma wheel_sound_gap_le:
  assumes "wheel_sound M dec w" "dec wi = Some (r, f)" "0 < M"
  shows "unat (byteInc (w wi)) \<le> M"
proof (rule ccontr)
  assume "\<not> unat (byteInc (w wi)) \<le> M"
  then have "0 < M \<and> M < unat (byteInc (w wi))" using assms(3) by simp
  with assms(1,2) have "\<not> coprime (f + M) M" unfolding wheel_sound_def by blast
  moreover from assms(1,2) have "coprime f M" unfolding wheel_sound_def by blast
  ultimately show False by (simp add: coprime_iff_gcd_eq_1 gcd_add2)
qed

lemma bit_single_pow: "bit (2 ^ i :: byte_t) b = (b = i \<and> i < 8)"
  using bit_single [of i b] by simp

lemma div30_add: "(x::nat) < 30 \<Longrightarrow> (30 * a + x) div 30 = a"
  by simp

lemma mod30_add: "(x::nat) < 30 \<Longrightarrow> (30 * a + x) mod 30 = x"
  by simp

lemma hit_multiple:
  assumes ws: "wheel_sound M dec w" and M: "30 dvd M" "0 < M"
    and pa: "points_at M dec L l p c" and b: "b < 8"
  shows "bit (hit w l k) b = (p * c = 30 * (L + k) + residues ! b)"
proof -
  from pa have d: "dec (wheelIndex l) = Some (p mod 30, c mod M)"
    and off: "L + unat (multipleIndex l) = p * c div 30"
    by (simp_all add: points_at_def)
  from ws d have cr: "coprime (p mod 30) 30" and cf: "coprime (c mod M) M"
    and bm: "bitMask (w (wheelIndex l))
               = push_bit (index_of ((p mod 30) * (c mod M) mod 30) residues) 1"
    unfolding wheel_sound_def by blast+
  from cr have cp: "coprime p 30" by (simp add: coprime_mod_left_iff)
  from cf M(2) have "coprime c M" by (simp add: coprime_mod_left_iff)
  with M(1) have cc: "coprime c 30" by (metis coprime_mult_right_iff dvd_def)
  from cp cc have "coprime (p * c) 30" by simp
  from coprime30_residue [OF this]
  have ix: "index_of (p * c mod 30) residues < 8"
    and rx: "residues ! index_of (p * c mod 30) residues = p * c mod 30" by simp_all
  have bm': "bitMask (w (wheelIndex l)) = push_bit (index_of (p * c mod 30) residues) 1"
    using bm multiple_mod30 [OF M(1), of p c] by simp
  show ?thesis
  proof
    assume "bit (hit w l k) b"
    then have k: "unat (multipleIndex l) = k" and bb: "b = index_of (p * c mod 30) residues"
      by (auto simp: hit_def bm' bit_single_pow split: if_splits)
    have "p * c = 30 * (p * c div 30) + p * c mod 30" by simp
    also have "\<dots> = 30 * (L + k) + residues ! b" using off k bb rx by simp
    finally show "p * c = 30 * (L + k) + residues ! b" .
  next
    assume e: "p * c = 30 * (L + k) + residues ! b"
    from residues_less [OF b] have "(30 * (L + k) + residues ! b) div 30 = L + k"
      "(30 * (L + k) + residues ! b) mod 30 = residues ! b"
      by (rule div30_add, rule mod30_add)
    with e have "p * c div 30 = L + k" "p * c mod 30 = residues ! b"
      by simp_all
    with off residues_index [OF b] b show "bit (hit w l k) b"
      by (simp add: hit_def bm' bit_single_pow)
  qed
qed

lemma advance_points_at:
  assumes ws: "wheel_sound M dec w" and M: "30 dvd M" "0 < M"
    and pa: "points_at M dec L l p c"
    and ins: "multipleIndex l < sz"
    and bound: "unat sz + (p + 2) * M < 2 ^ 64"
  shows "points_at M dec L (advance w l) p (c + unat (byteInc (w (wheelIndex l))))"
proof -
  let ?e = "w (wheelIndex l)"
  let ?g = "unat (byteInc ?e)"
  let ?r = "p mod 30" and ?f = "c mod M"
  from pa have d: "dec (wheelIndex l) = Some (?r, ?f)"
    and off: "L + unat (multipleIndex l) = p * c div 30"
    and sp: "unat (sievingPrime l) = p div 30"
    by (simp_all add: points_at_def)
  from ws d have ex: "unat (extraInc ?e) = ?r * (?f + ?g) div 30 - ?r * ?f div 30"
    and nx: "dec (nextWheelIndex ?e) = Some (?r, (?f + ?g) mod M)"
    unfolding wheel_sound_def by blast+
  have gM: "?g \<le> M" by (rule wheel_sound_gap_le [OF ws d M(2)])
  have "?r * (?f + ?g) \<le> 30 * (M + M)"
    using gM M(2) by (intro mult_le_mono add_mono) simp_all
  then have "?r * (?f + ?g) div 30 \<le> M + M"
    by (metis div_le_mono nonzero_mult_div_cancel_left zero_neq_numeral)
  with ex have exb: "unat (extraInc ?e) \<le> 2 * M" by linarith
  have spb: "unat (sievingPrime l) * ?g \<le> p * M"
    unfolding sp using gM by (intro mult_le_mono) simp_all
  from ins have mb: "unat (multipleIndex l) < unat sz" by (simp add: word_less_nat_alt)
  have tot: "unat (multipleIndex l) + unat (sievingPrime l) * ?g + unat (extraInc ?e) < 2 ^ 64"
    using mb spb exb bound by (simp add: algebra_simps)
  then have 1: "unat (sievingPrime l * byteInc ?e) = unat (sievingPrime l) * ?g"
    by (simp add: unat_mult_lem [THEN iffD1])
  with tot have 2: "unat (multipleIndex l + sievingPrime l * byteInc ?e)
                      = unat (multipleIndex l) + unat (sievingPrime l) * ?g"
    by (simp add: unat_add_lem [THEN iffD1])
  with tot have 3: "unat (multipleIndex l + sievingPrime l * byteInc ?e + extraInc ?e)
      = unat (multipleIndex l) + unat (sievingPrime l) * ?g + unat (extraInc ?e)"
    by (simp add: unat_add_lem [THEN iffD1])
  have "L + unat (multipleIndex (advance w l)) = p * (c + ?g) div 30"
    unfolding multiple_step [OF M(1), of p c ?g]
    using 3 off sp ex by (simp add: advance_def)
  moreover have "(c + ?g) mod M = (?f + ?g) mod M" by (simp add: mod_add_left_eq)
  ultimately show ?thesis
    using sp nx by (simp add: points_at_def advance_def)
qed

lemma walk_multiples:
  assumes ws: "wheel_sound M dec w" and M: "30 dvd M" "0 < M"
    and p0: "0 < p" and bound: "unat sz + (p + 2) * M < 2 ^ 64"
  shows "points_at M dec L l p c \<Longrightarrow>
         \<exists>n c'. stops w sz l n \<and> next_multiple M (L + unat sz) p c c'
              \<and> points_at M dec L ((advance w ^^ n) l) p c'
              \<and> (\<forall>k<unat sz. \<forall>b<8. bit (walk_mask w l n k) b
                     = (\<exists>c''\<ge>c. coprime c'' M \<and> p * c'' = 30 * (L + k) + residues ! b))"
proof (induction "30 * (L + unat sz) - p * c" arbitrary: l c rule: less_induct)
  case less
  note pa = less.prems
  from pa have off: "L + unat (multipleIndex l) = p * c div 30"
    and d: "dec (wheelIndex l) = Some (p mod 30, c mod M)"
    by (simp_all add: points_at_def)
  show ?case
  proof (cases "multipleIndex l < sz")
    case False
    then have out: "unat sz \<le> unat (multipleIndex l)"
      by (simp add: not_less word_le_nat_alt)
    have "\<forall>k<unat sz. \<forall>b<8. bit (walk_mask w l 0 k) b
            = (\<exists>c''\<ge>c. coprime c'' M \<and> p * c'' = 30 * (L + k) + residues ! b)"
    proof (intro allI impI)
      fix k b assume k: "k < unat sz" and b: "(b::nat) < 8"
      have "\<not> (\<exists>c''\<ge>c. coprime c'' M \<and> p * c'' = 30 * (L + k) + residues ! b)"
      proof
        assume "\<exists>c''\<ge>c. coprime c'' M \<and> p * c'' = 30 * (L + k) + residues ! b"
        then obtain c'' where c'': "c \<le> c''" "p * c'' = 30 * (L + k) + residues ! b" by blast
        from c''(2) have "p * c'' div 30 = L + k"
          using div30_add [OF residues_less [OF b], of "L + k"] by simp
        moreover from c''(1) have "p * c div 30 \<le> p * c'' div 30"
          by (intro div_le_mono mult_le_mono) simp_all
        ultimately show False using off out k by simp
      qed
      then show "bit (walk_mask w l 0 k) b
            = (\<exists>c''\<ge>c. coprime c'' M \<and> p * c'' = 30 * (L + k) + residues ! b)"
        by simp
    qed
    moreover have "stops w sz l 0" using False by (simp add: stops_0 not_less)
    moreover from ws d have "coprime (c mod M) M" unfolding wheel_sound_def by blast
    then have "coprime c M" using M(2) by (simp add: coprime_mod_left_iff)
    then have "next_multiple M (L + unat sz) p c c"
      using off out by (simp add: next_multiple_def)
    ultimately show ?thesis using pa by (intro exI [of _ 0] exI [of _ c]) simp
  next
    case True
    let ?g = "unat (byteInc (w (wheelIndex l)))"
    let ?l = "advance w l"
    from ws d have g0: "0 < ?g" and cf: "coprime (c mod M) M"
      and gap: "\<forall>j. 0 < j \<and> j < ?g \<longrightarrow> \<not> coprime (c mod M + j) M"
      unfolding wheel_sound_def by blast+
    from cf M(2) have cc: "coprime c M" by (simp add: coprime_mod_left_iff)
    have pa': "points_at M dec L ?l p (c + ?g)"
      by (rule advance_points_at [OF ws M pa True bound])
    from True have "unat (multipleIndex l) < unat sz" by (simp add: word_less_nat_alt)
    with off have here: "p * c div 30 < L + unat sz" by simp
    then have lt: "p * c < 30 * (L + unat sz)"
      by (simp add: div_less_iff_less_mult mult.commute)
    have pc: "p * c < p * (c + ?g)" using p0 g0 by simp
    from less.hyps [OF diff_less_mono2 [OF pc lt] pa'] obtain n c'
      where st: "stops w sz ?l n" and nm: "next_multiple M (L + unat sz) p (c + ?g) c'"
        and pn: "points_at M dec L ((advance w ^^ n) ?l) p c'"
        and mk: "\<forall>k<unat sz. \<forall>b<8. bit (walk_mask w ?l n k) b
                   = (\<exists>c''\<ge>c + ?g. coprime c'' M \<and> p * c'' = 30 * (L + k) + residues ! b)"
      by blast
    have "stops w sz l (Suc n)" using True st by (simp add: stops_Suc)
    moreover have "next_multiple M (L + unat sz) p c c'"
      unfolding next_multiple_def
    proof (intro conjI allI impI)
      from nm show "c \<le> c'" "coprime c' M" "L + unat sz \<le> p * c' div 30"
        by (simp_all add: next_multiple_def)
      fix c'' assume a: "c \<le> c'' \<and> c'' < c' \<and> coprime c'' M"
      show "p * c'' div 30 < L + unat sz"
      proof (cases "c'' = c")
        case True
        with here show ?thesis by simp
      next
        case False
        have "c + ?g \<le> c''"
        proof (rule ccontr)
          assume "\<not> c + ?g \<le> c''"
          with False a have j: "0 < c'' - c \<and> c'' - c < ?g" by linarith
          with gap have "\<not> coprime (c mod M + (c'' - c)) M" by blast
          then have "\<not> coprime (c + (c'' - c)) M"
            using coprime_shift [OF M(2), of c "c'' - c"] by simp
          with a show False by simp
        qed
        with nm a show ?thesis by (simp add: next_multiple_def)
      qed
    qed
    moreover have "points_at M dec L ((advance w ^^ Suc n) l) p c'"
      using pn unfolding funpow_Suc_lane .
    moreover have "\<forall>k<unat sz. \<forall>b<8. bit (walk_mask w l (Suc n) k) b
            = (\<exists>c''\<ge>c. coprime c'' M \<and> p * c'' = 30 * (L + k) + residues ! b)"
    proof (intro allI impI)
      fix k b assume k: "k < unat sz" and b: "(b::nat) < 8"
      let ?X = "30 * (L + k) + residues ! b"
      have h: "bit (hit w l k) b = (p * c = ?X)"
        by (rule hit_multiple [OF ws M pa b])
      from mk k b have r: "bit (walk_mask w ?l n k) b
          = (\<exists>c''\<ge>c + ?g. coprime c'' M \<and> p * c'' = ?X)" by simp
      have "(p * c = ?X \<or> (\<exists>c''\<ge>c + ?g. coprime c'' M \<and> p * c'' = ?X))
              = (\<exists>c''\<ge>c. coprime c'' M \<and> p * c'' = ?X)"
      proof
        assume "p * c = ?X \<or> (\<exists>c''\<ge>c + ?g. coprime c'' M \<and> p * c'' = ?X)"
        then show "\<exists>c''\<ge>c. coprime c'' M \<and> p * c'' = ?X"
        proof
          assume "p * c = ?X"
          with cc show ?thesis by blast
        next
          assume "\<exists>c''\<ge>c + ?g. coprime c'' M \<and> p * c'' = ?X"
          then obtain c'' where "c + ?g \<le> c''" "coprime c'' M" "p * c'' = ?X" by blast
          then have "c \<le> c''" by simp
          with \<open>coprime c'' M\<close> \<open>p * c'' = ?X\<close> show ?thesis by blast
        qed
      next
        assume "\<exists>c''\<ge>c. coprime c'' M \<and> p * c'' = ?X"
        then obtain c'' where c'': "c \<le> c''" "coprime c'' M" "p * c'' = ?X" by blast
        show "p * c = ?X \<or> (\<exists>c''\<ge>c + ?g. coprime c'' M \<and> p * c'' = ?X)"
        proof (cases "c'' = c")
          case True
          with c''(3) show ?thesis by simp
        next
          case False
          have "c + ?g \<le> c''"
          proof (rule ccontr)
            assume "\<not> c + ?g \<le> c''"
            with False c''(1) have j: "0 < c'' - c \<and> c'' - c < ?g" by simp
            with gap have "\<not> coprime (c mod M + (c'' - c)) M" by blast
            then have "\<not> coprime (c + (c'' - c)) M"
              using coprime_shift [OF M(2), of c "c'' - c"] by simp
            with c''(1,2) show False by simp
          qed
          with c''(2,3) show ?thesis by blast
        qed
      qed
      with h r show "bit (walk_mask w l (Suc n) k) b
            = (\<exists>c''\<ge>c. coprime c'' M \<and> p * c'' = ?X)"
        unfolding walk_mask_Suc by (simp add: bit_or_iff)
    qed
    ultimately show ?thesis by blast
  qed
qed

lemma sievingPrime_advance [simp]: "sievingPrime ((advance w ^^ n) l) = sievingPrime l"
  by (induction n arbitrary: l) (simp_all add: funpow_swap1 advance_def)

lemma lane_done_multiples:
  assumes ws: "wheel_sound M dec w" and M: "30 dvd M" "0 < M"
    and ld: "lane_done w sz r n q" and ei: "entry_inv M dec L sz r pc"
  shows "(\<forall>k<unat sz. \<forall>b<8. bit (walk_mask w (load r) n k) b
            = (\<exists>c'\<ge>snd pc. coprime c' M \<and> fst pc * c' = 30 * (L + k) + residues ! b))
         \<and> (\<exists>c'. next_multiple M (L + unat sz) (fst pc) (snd pc) c'
                \<and> entry_inv M dec (L + unat sz) sz q (fst pc, c'))"
proof -
  from ei have pa: "points_at M dec L (load r) (fst pc) (snd pc)" and p0: "0 < fst pc"
    and bound: "unat sz + (fst pc + 2) * M < 2 ^ 64"
    by (simp_all add: entry_inv_def)
  from ld have st: "stops w sz (load r) n"
    and q: "q = store sz ((advance w ^^ n) (load r)) r"
    by (simp_all add: lane_done_def)
  from walk_multiples [OF ws M p0 bound pa] obtain n' c'
    where st': "stops w sz (load r) n'"
      and nm: "next_multiple M (L + unat sz) (fst pc) (snd pc) c'"
      and pn: "points_at M dec L ((advance w ^^ n') (load r)) (fst pc) c'"
      and mk: "\<forall>k<unat sz. \<forall>b<8. bit (walk_mask w (load r) n' k) b
            = (\<exists>c''\<ge>snd pc. coprime c'' M \<and> fst pc * c'' = 30 * (L + k) + residues ! b)"
    by blast
  have n: "n' = n" by (rule stops_unique [OF st' st])
  let ?l = "(advance w ^^ n) (load r)"
  from st have out: "sz \<le> multipleIndex ?l" by (simp add: stops_def)
  then have sub: "unat (multipleIndex ?l - sz) = unat (multipleIndex ?l) - unat sz"
    by (simp add: unat_sub)
  from out have "unat sz \<le> unat (multipleIndex ?l)" by (simp add: word_le_nat_alt)
  with pn sub have "points_at M dec (L + unat sz) (load q) (fst pc) c'"
    unfolding n q by (simp add: points_at_def load_def store_def set_indexes_def)
  with p0 bound nm have "\<exists>c'. next_multiple M (L + unat sz) (fst pc) (snd pc) c'
                \<and> entry_inv M dec (L + unat sz) sz q (fst pc, c')"
    by (auto simp: entry_inv_def)
  with mk show ?thesis unfolding n by blast
qed

lemma lanes_done_multiples:
  assumes M: "30 dvd M" "0 < M"
  shows "wheel_sound M dec w \<Longrightarrow> lanes_done w sz ps ns qs \<Longrightarrow>
         list_all2 (entry_inv M dec L sz) ps pcs \<Longrightarrow>
         (\<forall>k<unat sz. \<forall>b<8. bit (walks_mask w ps ns k) b
             = wheel_multiple M pcs (30 * (L + k) + residues ! b))
         \<and> list_all2 (\<lambda>q pc. \<exists>c'. next_multiple M (L + unat sz) (fst pc) (snd pc) c'
                \<and> entry_inv M dec (L + unat sz) sz q (fst pc, c')) qs pcs"
proof (induction w sz ps ns qs arbitrary: pcs rule: lanes_done.induct)
  case (1 w sz)
  then show ?case by (simp add: wheel_multiple_def)
next
  case (2 w sz p ps n ns q qs)
  from "2.prems"(3) obtain pc pcs' where pcs: "pcs = pc # pcs'"
    and ei: "entry_inv M dec L sz p pc" and rest: "list_all2 (entry_inv M dec L sz) ps pcs'"
    by (auto simp: list_all2_Cons1)
  from "2.prems"(2) have ld: "lane_done w sz p n q" and lds: "lanes_done w sz ps ns qs"
    by simp_all
  note a = lane_done_multiples [OF "2.prems"(1) M ld ei]
  note b = "2.IH" [OF "2.prems"(1) lds rest]
  show ?case
    unfolding pcs using a b
    by (simp add: wheel_multiple_def bit_or_iff)
qed simp_all

lemma bit_and_not_byte:
  "b < 8 \<Longrightarrow> bit ((x :: byte_t) AND NOT m) b = (bit x b \<and> \<not> bit m b)"
  by (auto simp: bit_and_iff bit_not_iff)

lemma wheel_multiple_not_prime:
  assumes "wheel_multiple M pcs x" "\<forall>pc\<in>set pcs. 1 < fst pc \<and> 1 < snd pc"
  shows "\<not> is_prime x"
proof -
  from assms obtain p c c' where "1 < p" "1 < c" "c \<le> c'" "p * c' = x"
    by (auto simp: wheel_multiple_def)
  then have "p dvd x" "2 \<le> p" "p < x" by auto
  then show ?thesis by (auto simp: is_prime_def)
qed

text \<open>
  C1, amended. Let the wheel table be sound for a modulus \<open>M\<close> that is a multiple of 30
  (\<open>EratMedium\<close> runs on the modulo 210 wheel), let the sieve have \<open>sieveSize\<close> bytes and
  let every record of a non-empty \<open>primes_\<close> satisfy the entry invariant: record \<open>i\<close> points
  at the multiple \<open>p\<^sub>i * c\<^sub>i\<close> of its prime, its multiple index being the byte offset of
  that multiple from the start of the segment and its wheel index standing for the
  residues of \<open>p\<^sub>i\<close> and \<open>c\<^sub>i\<close>. Then \<open>crossOff\<close> returns; it clears exactly the bits of
  the numbers of the segment that are a multiple \<open>p\<^sub>i * c'\<close> with \<open>c'\<close> coprime to \<open>M\<close> and
  \<open>c' \<ge> c\<^sub>i\<close>, and leaves every other bit as it was; afterwards every record satisfies
  the entry invariant of the next segment, pointing at the first such multiple that lies
  behind the segment; and if all \<open>p\<^sub>i\<close> and \<open>c\<^sub>i\<close> exceed 1, no bit of a prime number
  is cleared.
\<close>

theorem crossOff_clears_wheel_multiples:
  assumes ws: "wheel_sound M dec wheel" and M: "30 dvd M" "0 < M"
    and ne: "m_primes em \<noteq> []"
    and len: "length sieve = unat sieveSize"
    and inv: "list_all2 (entry_inv M dec L sieveSize) (m_primes em) pcs"
  shows "\<exists>sieve' em'. crossOff wheel sieve sieveSize em = Some (Inr (sieve', em'))
      \<and> length sieve' = length sieve
      \<and> (\<forall>k<unat sieveSize. \<forall>b<8. bit (sieve' ! k) b
            = (bit (sieve ! k) b \<and> \<not> wheel_multiple M pcs (30 * (L + k) + residues ! b)))
      \<and> list_all2 (\<lambda>q pc. \<exists>c'. next_multiple M (L + unat sieveSize) (fst pc) (snd pc) c'
            \<and> entry_inv M dec (L + unat sieveSize) sieveSize q (fst pc, c')) (m_primes em') pcs
      \<and> ((\<forall>pc\<in>set pcs. 1 < fst pc \<and> 1 < snd pc) \<longrightarrow>
           (\<forall>k<unat sieveSize. \<forall>b<8. is_prime (30 * (L + k) + residues ! b) \<longrightarrow>
              bit (sieve' ! k) b = bit (sieve ! k) b))"
proof -
  have "\<forall>p\<in>set (m_primes em). \<exists>n. stops wheel sieveSize (load p) n"
  proof
    fix p assume "p \<in> set (m_primes em)"
    then obtain i where i: "i < length (m_primes em)" "p = m_primes em ! i"
      by (auto simp: in_set_conv_nth)
    with inv have "entry_inv M dec L sieveSize p (pcs ! i)"
      by (simp add: list_all2_nthD)
    then have "points_at M dec L (load p) (fst (pcs ! i)) (snd (pcs ! i))"
      "0 < fst (pcs ! i)" "unat sieveSize + (fst (pcs ! i) + 2) * M < 2 ^ 64"
      by (simp_all add: entry_inv_def)
    from walk_multiples [OF ws M this(2,3,1)]
    show "\<exists>n. stops wheel sieveSize (load p) n" by blast
  qed
  moreover have "unat sieveSize \<le> length sieve" using len by simp
  ultimately obtain sieve' em'
    where c: "crossOff wheel sieve sieveSize em = Some (Inr (sieve', em'))"
    using crossOff_total [OF ne] by blast
  from crossOff_Inr [OF c] obtain ns
    where "crossed wheel sieveSize sieve (m_primes em) sieve' (m_primes em') ns" by blast
  then have ld: "lanes_done wheel sieveSize (m_primes em) ns (m_primes em')"
    and len': "length sieve' = length sieve"
    and bytes: "\<forall>k<length sieve. sieve' ! k
               = sieve ! k AND NOT (walks_mask wheel (m_primes em) ns k)"
    by (simp_all add: crossed_def)
  from lanes_done_multiples [OF M ws ld inv]
  have mk: "\<forall>k<unat sieveSize. \<forall>b<8. bit (walks_mask wheel (m_primes em) ns k) b
             = wheel_multiple M pcs (30 * (L + k) + residues ! b)"
    and nx: "list_all2 (\<lambda>q pc. \<exists>c'. next_multiple M (L + unat sieveSize) (fst pc) (snd pc) c'
            \<and> entry_inv M dec (L + unat sieveSize) sieveSize q (fst pc, c')) (m_primes em') pcs"
    by blast+
  have bits: "\<forall>k<unat sieveSize. \<forall>b<8. bit (sieve' ! k) b
            = (bit (sieve ! k) b \<and> \<not> wheel_multiple M pcs (30 * (L + k) + residues ! b))"
    using bytes mk len by (simp add: bit_and_not_byte)
  have "(\<forall>pc\<in>set pcs. 1 < fst pc \<and> 1 < snd pc) \<longrightarrow>
           (\<forall>k<unat sieveSize. \<forall>b<8. is_prime (30 * (L + k) + residues ! b) \<longrightarrow>
              bit (sieve' ! k) b = bit (sieve ! k) b)"
    using bits wheel_multiple_not_prime [of M pcs] by blast
  with c len' bits nx show ?thesis by blast
qed

lemma wheel210_table:
  "list_all (\<lambda>j. let f = wheel210_factors ! j; f' = wheel210_factors ! Suc j
                  in f < f' \<and> f < 210 \<and> f' \<le> 211 \<and> coprime f 210 \<and> coprime f' 210
                     \<and> list_all (\<lambda>x. \<not> coprime x 210) [Suc f..<f']
                     \<and> f' mod 210 = wheel210_factors ! (Suc j mod 48)) [0..<48]"
  by code_simp

lemma residues_table: "list_all (\<lambda>a. residues ! a < 30 \<and> coprime (residues ! a) 30) [0..<8]"
  by code_simp

lemma unat_of_nat_small: "n \<le> 1000 \<Longrightarrow> unat (of_nat n :: u64) = n"
  by (simp add: unat_of_nat)

lemma wheel210_sound: "wheel_sound 210 dec210 wheel210"
  unfolding wheel_sound_def
proof (intro allI impI)
  fix wi r f assume d: "dec210 wi = Some (r, f)"
  define i where "i = unat wi"
  define a where "a = i div 48"
  define j where "j = i mod 48"
  from d have i: "i < 384" and r: "r = residues ! a" and f: "f = wheel210_factors ! j"
    by (auto simp: dec210_def i_def a_def j_def split: if_splits)
  have a: "a < 8" and j: "j < 48" using i by (simp_all add: a_def j_def)
  let ?f' = "wheel210_factors ! Suc j"
  from wheel210_table j have t: "f < ?f'" "f < 210" "?f' \<le> 211" "coprime f 210" "coprime ?f' 210"
    "\<forall>x\<in>{Suc f..<?f'}. \<not> coprime x 210" "?f' mod 210 = wheel210_factors ! (Suc j mod 48)"
    by (simp_all add: list_all_iff Let_def f)
  from residues_table a have rr: "r < 30" "coprime r 30"
    by (simp_all add: list_all_iff r)
  have am: "a mod 8 = a" using a by simp
  have bi: "unat (byteInc (wheel210 wi)) = ?f' - f"
    using t(3) by (simp add: wheel210_def Let_def i_def [symmetric] j_def [symmetric] f
        unat_of_nat_small)
  then have fg: "f + unat (byteInc (wheel210 wi)) = ?f'" using t(1) by simp
  have "r * ?f' div 30 \<le> 30 * 211 div 30"
    using rr(1) t(3) by (intro div_le_mono mult_le_mono) simp_all
  then have "r * ?f' div 30 - r * f div 30 \<le> 1000" by simp
  then have ex: "unat (extraInc (wheel210 wi)) = r * ?f' div 30 - r * f div 30"
    by (simp add: wheel210_def Let_def i_def [symmetric] j_def [symmetric]
        a_def [symmetric] am f r unat_of_nat_small)
  have bm: "bitMask (wheel210 wi) = push_bit (index_of (r * f mod 30) residues) 1"
    by (simp add: wheel210_def Let_def i_def [symmetric] j_def [symmetric]
        a_def [symmetric] am f r del: push_bit_of_1)
  have "48 * a + Suc j mod 48 < 384" using a by simp
  moreover have "nextWheelIndex (wheel210 wi) = of_nat (48 * a + Suc j mod 48)"
    by (simp add: wheel210_def Let_def i_def [symmetric] j_def [symmetric]
        a_def [symmetric] del: of_nat_add of_nat_mult)
  ultimately have nx: "unat (nextWheelIndex (wheel210 wi)) = 48 * a + Suc j mod 48"
    by (simp only: unat_of_nat_small)
  have "dec210 (nextWheelIndex (wheel210 wi)) = Some (r, ?f' mod 210)"
    unfolding dec210_def nx using a t(7) by (simp add: r)
  moreover have "\<forall>x. 0 < x \<and> x < unat (byteInc (wheel210 wi)) \<longrightarrow> \<not> coprime (f + x) 210"
    using t(6) bi by auto
  ultimately show "r < 30 \<and> coprime r 30 \<and> f < 210 \<and> coprime f 210
        \<and> 0 < unat (byteInc (wheel210 wi))
        \<and> coprime (f + unat (byteInc (wheel210 wi))) 210
        \<and> (\<forall>j. 0 < j \<and> j < unat (byteInc (wheel210 wi)) \<longrightarrow> \<not> coprime (f + j) 210)
        \<and> bitMask (wheel210 wi) = push_bit (index_of (r * f mod 30) residues) 1
        \<and> unat (extraInc (wheel210 wi))
            = r * (f + unat (byteInc (wheel210 wi))) div 30 - r * f div 30
        \<and> dec210 (nextWheelIndex (wheel210 wi))
            = Some (r, (f + unat (byteInc (wheel210 wi))) mod 210)"
    unfolding fg using rr t bi bm ex by simp
qed

section \<open>The wheel modulo 210 at work\<close>

lemma em31_crossOff:
  "crossOff wheel210 (replicate 56 255) 56 em31 = Some (Inr (sieve31', em31'))"
  by code_simp

theorem crossOff_clears_wheel_multiples_witness:
  "wheel_sound 210 dec210 wheel210 \<and> (30::nat) dvd 210 \<and> (0::nat) < 210
   \<and> m_primes em_small \<noteq> []
   \<and> length (replicate 16 (255 :: byte_t)) = unat (16 :: u64)
   \<and> list_all2 (entry_inv 210 dec210 0 16) (m_primes em_small)
        [(11, 11), (13, 13), (17, 17), (19, 19), (23, 23)]
   \<and> (\<exists>sieve' em'. crossOff wheel210 (replicate 16 255) 16 em_small = Some (Inr (sieve', em'))
      \<and> length sieve' = length (replicate 16 (255 :: byte_t))
      \<and> (\<forall>k<unat (16 :: u64). \<forall>b<8. bit (sieve' ! k) b
            = (bit (replicate 16 (255 :: byte_t) ! k) b
               \<and> \<not> wheel_multiple 210 [(11, 11), (13, 13), (17, 17), (19, 19), (23, 23)]
                      (30 * (0 + k) + residues ! b))))"
proof -
  have h4: "m_primes em_small \<noteq> []" by (simp add: em_small_def)
  have h5: "length (replicate 16 (255 :: byte_t)) = unat (16 :: u64)" by simp
  have h6: "list_all2 (entry_inv 210 dec210 0 16) (m_primes em_small)
        [(11, 11), (13, 13), (17, 17), (19, 19), (23, 23)]"
    by (simp add: entry_inv_def points_at_def load_def em_small_def dec210_def residues_def
        wheel210_factors_def)
  have h2: "(30::nat) dvd 210" by simp
  have h3: "(0::nat) < 210" by simp
  from crossOff_clears_wheel_multiples [OF wheel210_sound h2 h3 h4 h5 h6]
    wheel210_sound h2 h3 h4 h5 h6
  show ?thesis by blast
qed

text \<open>
  C1, as the claim states it, fails. The engine \<open>em31\<close> holds the sieving prime 31 and
  points at 961 in the segment of the numbers below 1680. The number 1519 = 31 * 49 of
  that segment is a multiple of 31 coprime to 30, and its bit (bit 5 of byte 50) is still
  set after \<open>crossOff\<close>: on the modulo 210 wheel the factor 49 is skipped.
\<close>

theorem crossOff_multiple_not_cleared_counterexample:
  "entry_inv 210 dec210 0 56 (m_primes em31 ! 0) (31, 31)
   \<and> crossOff wheel210 (replicate 56 255) 56 em31 = Some (Inr (sieve31', em31'))
   \<and> 30 * 50 + residues ! 5 = (31 * 49 :: nat)
   \<and> coprime (31 * 49 :: nat) 30
   \<and> bit (replicate 56 (255 :: byte_t) ! 50) 5
   \<and> bit (sieve31' ! 50) 5"
proof -
  have "entry_inv 210 dec210 0 56 (m_primes em31 ! 0) (31, 31)"
    by (simp add: entry_inv_def points_at_def load_def em31_def dec210_def residues_def
        wheel210_factors_def)
  moreover note em31_crossOff
  moreover have "30 * 50 + residues ! 5 = (31 * 49 :: nat)" by (simp add: residues_def)
  moreover have "coprime (31 * 49 :: nat) 30" by code_simp
  moreover have "bit (replicate 56 (255 :: byte_t) ! 50) 5" by simp
  moreover have "bit (sieve31' ! 50) 5" by (simp add: sieve31'_def)
  ultimately show ?thesis by blast
qed

section \<open>The primes that a worker finds\<close>

lemma is_prime_small: "\<forall>p\<in>set small_primes. is_prime p"
  by code_simp

lemma dvd_is_prime: "is_prime x \<Longrightarrow> d dvd x \<Longrightarrow> 2 \<le> d \<Longrightarrow> x = d"
proof -
  assume p: "is_prime x" and d: "d dvd x" "2 \<le> d"
  from p have "0 < x" by (simp add: is_prime_def)
  with d have "d \<le> x" by (simp add: dvd_imp_le)
  with p d show "x = d" by (auto simp: is_prime_def)
qed

lemma not_coprime_30:
  "list_all (\<lambda>r. coprime r 30 \<or> 2 dvd r \<or> 3 dvd r \<or> 5 dvd r) [0..<30]"
  by code_simp

lemma is_prime_coprime_30:
  assumes "is_prime x"
  shows "x \<in> set small_primes \<or> coprime x 30"
proof (cases "coprime x 30")
  case True
  then show ?thesis by simp
next
  case False
  then have nc: "\<not> coprime (x mod 30) 30" by (simp add: coprime_mod_left_iff)
  have all: "\<And>r::nat. r < 30 \<Longrightarrow> coprime r 30 \<or> 2 dvd r \<or> 3 dvd r \<or> 5 dvd r"
    using not_coprime_30 by (simp add: list_all_iff)
  have "x mod 30 < 30" by simp
  from all [OF this] nc have "2 dvd x mod 30 \<or> 3 dvd x mod 30 \<or> 5 dvd x mod 30"
    by blast
  then obtain d where d: "d \<in> {2, 3, 5}" "d dvd x mod 30" by auto
  then have "d dvd 30" by auto
  then have "d dvd 30 * (x div 30) + x mod 30" using d(2) by (intro dvd_add dvd_mult2)
  then have "d dvd x" by simp
  moreover from d(1) have "2 \<le> d" by auto
  ultimately have "x = d" using assms by (intro dvd_is_prime)
  with d(1) show ?thesis by (auto simp: small_primes_def)
qed

lemma coprime_30_prime_ge_7:
  assumes "coprime x 30" "is_prime x"
  shows "7 \<le> x"
proof (rule ccontr)
  assume "\<not> 7 \<le> x"
  then have "x < 7" by simp
  moreover have "list_all (\<lambda>x. \<not> (coprime x 30 \<and> 1 < x)) [0..<7]" by code_simp
  ultimately have "\<not> (coprime x 30 \<and> 1 < x)" by (simp add: list_all_iff)
  with assms show False by (simp add: is_prime_def)
qed

lemma segment_low_mono: "i \<le> j \<Longrightarrow> segment_low S lo i \<le> segment_low S lo j"
  by (simp add: segment_low_def)

lemma segment_of:
  assumes "0 < S" "lo \<le> x" "x \<le> hi"
  shows "(x - lo) div (30 * S) < segment_count S lo hi
         \<and> segment_low S lo ((x - lo) div (30 * S)) \<le> x
         \<and> x < segment_low S lo (Suc ((x - lo) div (30 * S)))"
proof -
  let ?d = "30 * S" and ?i = "(x - lo) div (30 * S)"
  have d: "0 < ?d" using assms(1) by simp
  have "x - lo \<le> hi - lo" using assms by simp
  then have "?i \<le> (hi - lo) div ?d" by (rule div_le_mono)
  then have 1: "?i < segment_count S lo hi" by (simp add: segment_count_def)
  have "?d * ?i \<le> x - lo" by simp
  then have 2: "segment_low S lo ?i \<le> x"
    using assms(2) by (simp add: segment_low_def algebra_simps)
  have "x - lo < ?d * Suc ?i"
    using d dividend_less_times_div [of ?d "x - lo"] by (simp add: algebra_simps)
  then have 3: "x < segment_low S lo (Suc ?i)"
    using assms(2) by (simp add: segment_low_def algebra_simps)
  from 1 2 3 show ?thesis by blast
qed

lemma set_worker_primes:
  assumes "0 < S"
  shows "set (worker_primes S lo hi) = {x. lo \<le> x \<and> x \<le> hi \<and> is_prime x}"
proof (intro set_eqI iffI)
  fix x assume "x \<in> set (worker_primes S lo hi)"
  then show "x \<in> {x. lo \<le> x \<and> x \<le> hi \<and> is_prime x}"
    using is_prime_small by (auto simp: worker_primes_def scan_segment_def)
next
  fix x assume "x \<in> {x. lo \<le> x \<and> x \<le> hi \<and> is_prime x}"
  then have x: "lo \<le> x" "x \<le> hi" "is_prime x" by simp_all
  show "x \<in> set (worker_primes S lo hi)"
  proof (cases "x \<in> set small_primes")
    case True
    with x show ?thesis by (simp add: worker_primes_def)
  next
    case False
    with is_prime_coprime_30 [OF x(3)] have c: "coprime x 30" by simp
    let ?i = "(x - lo) div (30 * S)"
    from segment_of [OF assms x(1,2)] have i: "?i < segment_count S lo hi"
      "segment_low S lo ?i \<le> x" "x < segment_low S lo (Suc ?i)" by simp_all
    then have "x \<in> set (scan_segment lo hi (segment_low S lo ?i) (segment_low S lo (Suc ?i)))"
      using x c by (simp add: scan_segment_def)
    with i(1) show ?thesis by (auto simp: worker_primes_def)
  qed
qed

lemma sorted_segments:
  "sorted_wrt (<) (concat (map (\<lambda>i. scan_segment lo hi (segment_low S lo i)
                                         (segment_low S lo (Suc i))) [0..<n]))
   \<and> (\<forall>x\<in>set (concat (map (\<lambda>i. scan_segment lo hi (segment_low S lo i)
                                         (segment_low S lo (Suc i))) [0..<n])).
        x < segment_low S lo n)"
proof (induction n)
  case 0
  show ?case by simp
next
  case (Suc n)
  let ?g = "\<lambda>i. scan_segment lo hi (segment_low S lo i) (segment_low S lo (Suc i))"
  have g: "sorted_wrt (<) (?g n)" "\<forall>y\<in>set (?g n). segment_low S lo n \<le> y \<and> y < segment_low S lo (Suc n)"
    by (simp_all add: scan_segment_def sorted_wrt_filter)
  have le: "segment_low S lo n \<le> segment_low S lo (Suc n)" by (rule segment_low_mono) simp
  let ?xs = "concat (map ?g [0..<n])"
  from Suc have xs: "sorted_wrt (<) ?xs" "\<forall>x\<in>set ?xs. x < segment_low S lo n" by simp_all
  have "\<forall>x\<in>set ?xs. \<forall>y\<in>set (?g n). x < y"
    using xs(2) g(2) by (meson less_le_trans)
  with xs(1) g(1) have "sorted_wrt (<) (?xs @ ?g n)" by (simp add: sorted_wrt_append)
  moreover have "\<forall>x\<in>set (?xs @ ?g n). x < segment_low S lo (Suc n)"
    using xs(2) g(2) le by (auto simp del: set_concat intro: less_le_trans)
  ultimately show ?case by simp
qed

lemma sorted_worker_primes: "sorted_wrt (<) (worker_primes S lo hi)"
proof -
  let ?small = "filter (\<lambda>p. lo \<le> p \<and> p \<le> hi) small_primes"
  let ?segs = "concat (map (\<lambda>i. scan_segment lo hi (segment_low S lo i)
                                   (segment_low S lo (Suc i))) [0..<segment_count S lo hi])"
  have "sorted_wrt (<) small_primes" by (simp add: small_primes_def)
  then have 1: "sorted_wrt (<) ?small" by (rule sorted_wrt_filter)
  have 2: "sorted_wrt (<) ?segs" using sorted_segments by blast
  have "\<forall>x\<in>set ?small. x \<le> 5" by (auto simp: small_primes_def)
  moreover have "\<forall>y\<in>set ?segs. 7 \<le> y"
    by (auto simp: scan_segment_def intro: coprime_30_prime_ge_7)
  ultimately have "\<forall>x\<in>set ?small. \<forall>y\<in>set ?segs. x < y" by fastforce
  with 1 2 show ?thesis unfolding worker_primes_def by (simp add: sorted_wrt_append)
qed

lemma worker_primes_eq:
  assumes "0 < S"
  shows "worker_primes S lo hi = filter is_prime [lo..<Suc hi]"
proof (rule sorted_distinct_set_unique)
  show "sorted (worker_primes S lo hi)" "distinct (worker_primes S lo hi)"
    using sorted_worker_primes [of S lo hi] by (simp_all add: strict_sorted_iff)
  have "sorted_wrt (<) (filter is_prime [lo..<Suc hi])"
    by (intro sorted_wrt_filter sorted_wrt_upt)
  then show "sorted (filter is_prime [lo..<Suc hi])" "distinct (filter is_prime [lo..<Suc hi])"
    by (simp_all add: strict_sorted_iff)
  show "set (worker_primes S lo hi) = set (filter is_prime [lo..<Suc hi])"
    unfolding set_worker_primes [OF assms] by auto
qed

lemma upt_append_upt: "i \<le> j \<Longrightarrow> j \<le> k \<Longrightarrow> [i..<j] @ [j..<k] = [i..<k]"
  using upt_add_eq_append [of i j "k - j"] by simp

lemma upt_chunks:
  "concat (map (\<lambda>t. [a + t * c..<min b (a + (t + 1) * c)]) [0..<T]) = [a..<min b (a + T * c)]"
proof (induction T)
  case 0
  show ?case by simp
next
  case (Suc T)
  have "[a..<min b (a + T * c)] @ [a + T * c..<min b (a + (T + 1) * c)]
          = [a..<min b (a + (T + 1) * c)]"
  proof (cases "a + T * c \<le> b")
    case True
    then have "min b (a + T * c) = a + T * c" by simp
    moreover have "a + T * c \<le> min b (a + (T + 1) * c)" using True by simp
    ultimately show ?thesis
      by (simp add: upt_append_upt)
  next
    case False
    then show ?thesis by (simp add: min_def)
  qed
  with Suc show ?case by simp
qed

lemma round_up_30: "(x::nat) \<le> (x + 29) div 30 * 30"
  by presburger

lemma Suc_min_pred: "0 < (b::nat) \<Longrightarrow> Suc (min a (b - 1)) = min (Suc a) b"
  by (cases b) simp_all

lemma thread_distance_covers:
  assumes "0 < T"
  shows "0 < thread_distance T start stop"
    and "stop - start < T * thread_distance T start stop"
proof -
  let ?x = "(stop - start) div T + 1"
  have x: "?x \<le> thread_distance T start stop"
    unfolding thread_distance_def by (rule round_up_30)
  then show "0 < thread_distance T start stop" by simp
  have "stop - start < T * ?x"
    using assms dividend_less_times_div [of T "stop - start"] by (simp add: algebra_simps)
  also have "\<dots> \<le> T * thread_distance T start stop" using x by (rule mult_le_mono2)
  finally show "stop - start < T * thread_distance T start stop" .
qed

lemma sum_length_filter_concat:
  "sum_list (map (\<lambda>t. length (filter P (f t))) ts) = length (filter P (concat (map f ts)))"
  by (induction ts) simp_all

lemma countPrimes_eq:
  assumes "0 < S" "0 < T" "start \<le> stop"
  shows "countPrimes S T start stop = Inr (length (filter is_prime [start..<Suc stop]))"
proof -
  let ?c = "thread_distance T start stop"
  have c: "0 < ?c" and cov: "stop - start < T * ?c"
    by (rule thread_distance_covers [OF assms(2)])+
  have w: "\<And>t. worker_primes S (fst (thread_interval T start stop t))
                                 (snd (thread_interval T start stop t))
             = filter is_prime [start + t * ?c..<min (Suc stop) (start + (t + 1) * ?c)]"
  proof -
    fix t
    have "0 < start + (t + 1) * ?c" using c by simp
    then have "Suc (min stop (start + (t + 1) * ?c - 1)) = min (Suc stop) (start + (t + 1) * ?c)"
      by (rule Suc_min_pred)
    then show "worker_primes S (fst (thread_interval T start stop t))
                                 (snd (thread_interval T start stop t))
             = filter is_prime [start + t * ?c..<min (Suc stop) (start + (t + 1) * ?c)]"
      unfolding worker_primes_eq [OF assms(1)] thread_interval_def by simp
  qed
  have "Suc stop \<le> start + T * ?c" using cov assms(3) by simp
  then have m: "min (Suc stop) (start + T * ?c) = Suc stop" by simp
  have "sum_list (map (\<lambda>t. length (worker_primes S (fst (thread_interval T start stop t))
                                        (snd (thread_interval T start stop t)))) [0..<T])
        = length (filter is_prime [start..<Suc stop])"
    unfolding w sum_length_filter_concat upt_chunks m ..
  with assms(3) show ?thesis by (simp add: countPrimes_def)
qed

lemma get_sieve_size_pos:
  assumes "0 \<le> sieve_size g"
  shows "1 \<le> get_sieve_size g cpu"
  using assms floorPow2_inBetween(1) [of 32 2048] floorPow2_inBetween(1) [of 8 2048]
  by (simp add: get_sieve_size_def Let_def)

lemma get_num_threads_pos:
  assumes "0 \<le> num_threads g" "1 \<le> maxThreads"
  shows "1 \<le> get_num_threads g maxThreads"
  using assms by (simp add: get_num_threads_def)

lemma count_primes_eq:
  assumes "0 \<le> sieve_size g" "0 \<le> num_threads g" "1 \<le> maxThreads" "start \<le> stop"
  shows "count_primes g cpu maxThreads start stop
           = Inr (length (filter is_prime [unat start..<Suc (unat stop)]))"
proof -
  have "0 < 1024 * nat (get_sieve_size g cpu)"
    using get_sieve_size_pos [OF assms(1), of cpu] by simp
  moreover have "0 < nat (get_num_threads g maxThreads)"
    using get_num_threads_pos [OF assms(2,3)] by simp
  moreover have "unat start \<le> unat stop" using assms(4) by (simp add: word_le_nat_alt)
  ultimately show ?thesis unfolding count_primes_def by (rule countPrimes_eq)
qed

lemma primes_to_100:
  "filter is_prime [1..<Suc 100]
     = [2, 3, 5, 7, 11, 13, 17, 19, 23, 29, 31, 37, 41, 43, 47, 53, 59, 61, 67, 71, 73, 79,
        83, 89, 97]"
  by code_simp

section \<open>Counting and generating primes\<close>

text \<open>
  C2. For every interval \<open>[start, stop]\<close> with \<open>start \<le> stop\<close> (whatever its upper bound),
  whatever sieve size and number of threads the globals of the API hold,
  \<open>count_primes(start, stop)\<close> is the number of primes in \<open>[start, stop]\<close> that trial
  division finds. In particular \<open>count_primes(1, 100) = 25\<close>, and the primes in
  \<open>[1, 100]\<close> are 2, 3, 5, 7, 11, 13, 17, 19, 23, 29, 31, 37, 41, 43, 47, 53, 59, 61, 67,
  71, 73, 79, 83, 89, 97.
\<close>

theorem count_primes_reference:
  assumes "0 \<le> sieve_size g" "0 \<le> num_threads g" "1 \<le> maxThreads" "start \<le> stop"
  shows "count_primes g cpu maxThreads start stop
           = Inr (length (filter is_prime [unat start..<Suc (unat stop)]))
         \<and> count_primes g cpu maxThreads start stop
           = Inr (card {p. unat start \<le> p \<and> p \<le> unat stop \<and> is_prime p})
         \<and> count_primes g cpu maxThreads 1 100 = Inr 25
         \<and> filter is_prime [1..<Suc 100]
             = [2, 3, 5, 7, 11, 13, 17, 19, 23, 29, 31, 37, 41, 43, 47, 53, 59, 61, 67, 71,
                73, 79, 83, 89, 97]"
proof -
  note 1 = count_primes_eq [OF assms]
  have "distinct (filter is_prime [unat start..<Suc (unat stop)])" by simp
  then have "length (filter is_prime [unat start..<Suc (unat stop)])
               = card (set (filter is_prime [unat start..<Suc (unat stop)]))"
    by (simp only: distinct_card)
  also have "set (filter is_prime [unat start..<Suc (unat stop)])
               = {p. unat start \<le> p \<and> p \<le> unat stop \<and> is_prime p}" by auto
  finally have 2: "length (filter is_prime [unat start..<Suc (unat stop)])
               = card {p. unat start \<le> p \<and> p \<le> unat stop \<and> is_prime p}" .
  have "count_primes g cpu maxThreads 1 100
          = Inr (length (filter is_prime [unat (1 :: u64)..<Suc (unat (100 :: u64))]))"
    by (rule count_primes_eq [OF assms(1,2,3)]) simp
  then have 3: "count_primes g cpu maxThreads 1 100 = Inr 25"
    using primes_to_100 by simp
  from 1 2 3 primes_to_100 show ?thesis by simp
qed

theorem count_primes_reference_witness:
  "0 \<le> sieve_size api_init \<and> 0 \<le> num_threads api_init \<and> (1::int) \<le> 4
   \<and> (1000 :: u64) \<le> 1100
   \<and> count_primes api_init cpu_example 4 1000 1100
       = Inr (length (filter is_prime [unat (1000 :: u64)..<Suc (unat (1100 :: u64))]))
   \<and> count_primes api_init cpu_example 4 1 100 = Inr 25"
proof -
  have h: "0 \<le> sieve_size api_init" "0 \<le> num_threads api_init" "(1::int) \<le> 4"
    "(1000 :: u64) \<le> 1100"
    by (simp_all add: api_init_def)
  from count_primes_reference [OF h, of cpu_example] h show ?thesis by blast
qed

lemma fold_log: "fold (\<lambda>p log. log @ [p]) ps qs = qs @ ps"
  by (induction ps arbitrary: qs) simp_all

text \<open>
  C7. In one run of \<open>generatePrimes\<close> over \<open>[start, stop]\<close> the callback is called on a
  strictly increasing sequence of values: the run is the fold of the callback over the
  sequence that a recording callback writes down, and in that sequence every value is
  less than every later one, so in particular than its successor.
\<close>

theorem generatePrimes_increasing:
  assumes "generatePrimes sieveSize start stop callback st = Inr st'"
  shows "\<exists>ps. generatePrimes sieveSize start stop (\<lambda>p log. log @ [p]) [] = Inr ps
           \<and> st' = fold callback ps st
           \<and> sorted_wrt (<) ps
           \<and> (\<forall>i. Suc i < length ps \<longrightarrow> ps ! i < ps ! Suc i)"
proof -
  let ?ps = "worker_primes sieveSize start stop"
  from assms have le: "\<not> start > stop" and st': "st' = fold callback ?ps st"
    by (auto simp: generatePrimes_def split: if_splits)
  from le have "generatePrimes sieveSize start stop (\<lambda>p log. log @ [p]) [] = Inr ?ps"
    by (simp add: generatePrimes_def fold_log)
  moreover have s: "sorted_wrt (<) ?ps" by (rule sorted_worker_primes)
  moreover have "\<forall>i. Suc i < length ?ps \<longrightarrow> ?ps ! i < ?ps ! Suc i"
    using s by (simp add: sorted_wrt_nth_less)
  ultimately show ?thesis using st' by blast
qed

lemma generatePrimes_example:
  "generatePrimes 8 90 130 (\<lambda>p log. log @ [p]) [] = Inr [97, 101, 103, 107, 109, 113, 127]"
  by code_simp

theorem generatePrimes_increasing_witness:
  "generatePrimes 8 90 130 (\<lambda>p log. log @ [p]) [] = Inr [97, 101, 103, 107, 109, 113, 127]
   \<and> (\<exists>ps. generatePrimes 8 90 130 (\<lambda>p log. log @ [p]) [] = Inr ps
           \<and> [97, 101, 103, 107, 109, 113, 127] = fold (\<lambda>p log. log @ [p]) ps []
           \<and> sorted_wrt (<) ps
           \<and> (\<forall>i. Suc i < length ps \<longrightarrow> ps ! i < ps ! Suc i))"
  using generatePrimes_increasing [OF generatePrimes_example] generatePrimes_example
  by blast

end
